theory Spec2Isabelle
  imports Complex_Main "HOL-Library.Word"
begin
section \<open>The evaluation pipeline of tree_go/main.go and the aggregator of results/main.go\<close>

text \<open>
  Go strings are byte sequences, modelled as \<^typ>\<open>string\<close> (a list of 8-bit characters).
  The \<open>int32\<close> counters are \<^typ>\<open>32 word\<close>, so \<open>atomic.AddInt32\<close> wraps as in Go.
  A \<open>float64\<close> is an extended real (type \<open>float64\<close> below): the special values of a
  division by zero are kept, rounding of finite results is not modelled.
  Whatever the program obtains from outside (random draws, the reply of the remote
  model, the clock, the rows of the dataset) is an explicit input.
\<close>

subsection \<open>Constants\<close>

definition NShot :: nat where
  "NShot = 4"

definition BatchSize :: nat where
  "BatchSize = 100"

definition WorkerCount :: nat where
  "WorkerCount = 50"

definition ActivityName :: string where
  "ActivityName = ''going grocery shopping''"

definition InvalidAns :: string where
  "InvalidAns = ''[invalid]''"

subsection \<open>Data\<close>

record Sample =
  Premise :: string
  Choice1 :: string
  Choice2 :: string
  Question :: string
  Label :: string

text \<open>
  The first three fields of \<open>Response\<close> carry the names of \<open>Sample\<close>'s in the source; here
  they are prefixed with \<open>R\<close> to keep the two records' selectors apart.
\<close>

record Response =
  RPremise :: string
  RChoice1 :: string
  RChoice2 :: string
  CausalQuestion :: string
  CorrectAnswer :: string
  ModelAnswer :: string
  ModelCompletion :: string
  IsCorrect :: bool
  IsInvalid :: bool
  ProcessingTime :: real

record Stats =
  total :: "32 word"
  correct :: "32 word"
  invalid :: "32 word"
  totalTime :: real

definition zeroStats :: Stats where
  "zeroStats = \<lparr>total = 0, correct = 0, invalid = 0, totalTime = 0\<rparr>"

record Demo =
  activityName :: string
  premise :: string
  choices :: "string list"
  question :: string
  answer :: string

definition demoExamples :: "Demo list" where
  "demoExamples =
    [\<lparr>activityName = ''going grocery shopping'', premise = ''select items from the shelf'',
       choices = [''pay at the counter'', ''leave the store without paying''],
       question = ''effect'', answer = ''A''\<rparr>,
     \<lparr>activityName = ''baking a cake'', premise = ''mix the batter'',
       choices = [''burn the kitchen'', ''pour batter into a pan''],
       question = ''effect'', answer = ''B''\<rparr>,
     \<lparr>activityName = ''riding on a bus'', premise = ''board the bus'',
       choices = [''buy a ticket'', ''fly to another city''],
       question = ''cause'', answer = ''A''\<rparr>,
     \<lparr>activityName = ''planting a tree'', premise = ''dig a hole'',
       choices = [''water the plant'', ''cut down a tree''],
       question = ''effect'', answer = ''A''\<rparr>]"

text \<open>A run-time panic of the Go program (an index out of range).\<close>

datatype panic = IndexOutOfRange

subsection \<open>Prompt construction\<close>

definition sq :: string where
  "sq = [CHR 0x27]"

definition nl :: string where
  "nl = [CHR 0x0A]"

text \<open>
  \<open>getQuestionText\<close>: the \<open>Sprintf\<close> of the source, written as a concatenation;
  \<open>choices[0]\<close> and \<open>choices[1]\<close> panic on a slice with fewer than two elements.
\<close>

definition getQuestionText :: "string \<Rightarrow> string \<Rightarrow> string list \<Rightarrow> string \<Rightarrow> panic + string" where
  "getQuestionText actName prem chs causalQuestion =
    (case chs of
       c0 # c1 # _ \<Rightarrow>
         Inr (''The following are multiple choice questions about '' @ sq @ actName @ sq
              @ ''. You should directly answer the question by choosing the correct option.'' @ nl
              @ ''Which of the following events (given as options A or B) is a plausible ''
              @ causalQuestion @ '' of the event '' @ sq @ prem @ sq @ ''?'' @ nl
              @ ''A. '' @ c0 @ nl @ ''B. '' @ c1 @ nl @ ''Answer:'')
     | _ \<Rightarrow> Inl IndexOutOfRange)"

text \<open>
  \<open>rand.Shuffle(n, swap)\<close> of math/rand/v2 runs \<open>i\<close> from \<open>n - 1\<close> down to \<open>1\<close>, draws
  \<open>j\<close> in \<open>[0, i]\<close> and swaps positions \<open>i\<close> and \<open>j\<close>. The random source is a tape of natural
  numbers, the \<open>k\<close>-th draw being \<open>tape k mod (i + 1)\<close>, so that every \<open>j\<close> in range can occur.
\<close>

definition swap :: "'a list \<Rightarrow> nat \<Rightarrow> nat \<Rightarrow> 'a list" where
  "swap xs i j = xs[i := xs ! j, j := xs ! i]"

fun shuffleFrom :: "(nat \<Rightarrow> nat) \<Rightarrow> nat \<Rightarrow> nat \<Rightarrow> 'a list \<Rightarrow> 'a list" where
  "shuffleFrom tape k 0 xs = xs"
| "shuffleFrom tape k (Suc i) xs =
     shuffleFrom tape (Suc k) i (swap xs (Suc i) (tape k mod (Suc i + 1)))"

definition Shuffle :: "(nat \<Rightarrow> nat) \<Rightarrow> 'a list \<Rightarrow> 'a list" where
  "Shuffle tape xs = shuffleFrom tape 0 (length xs - 1) xs"

text \<open>The loop of \<open>createDemoText\<close> over the shuffled exemplars, \<open>demo\<close> being the builder.\<close>

fun demoLoop :: "Demo list \<Rightarrow> string \<Rightarrow> panic + string" where
  "demoLoop [] demo = Inr demo"
| "demoLoop (ex # rest) demo =
     (case getQuestionText (activityName ex) (premise ex) (choices ex) (question ex) of
        Inl e \<Rightarrow> Inl e
      | Inr q \<Rightarrow> demoLoop rest (demo @ q @ '' '' @ answer ex @ nl @ nl))"

definition createDemoText :: "nat \<Rightarrow> (nat \<Rightarrow> nat) \<Rightarrow> panic + string" where
  "createDemoText nShot tape = demoLoop (take nShot (Shuffle tape demoExamples)) []"

definition buildPrompt :: "Sample \<Rightarrow> nat \<Rightarrow> (nat \<Rightarrow> nat) \<Rightarrow> panic + string" where
  "buildPrompt sample nShot tape =
    (case createDemoText nShot tape of
       Inl e \<Rightarrow> Inl e
     | Inr demo \<Rightarrow>
         (case getQuestionText ActivityName (Premise sample) [Choice1 sample, Choice2 sample]
                 (Question sample) of
            Inl e \<Rightarrow> Inl e
          | Inr questionText \<Rightarrow> Inr (demo @ questionText)))"

subsection \<open>Answer extraction\<close>

text \<open>
  \<open>strings.TrimSpace\<close> removes the leading and the trailing white-space runes. On the
  UTF-8 bytes of a Go string these are the encodings below (\<open>unicode.IsSpace\<close>): the six
  ASCII ones, U+0085, U+00A0, U+1680, U+2000 to U+200A, U+2028, U+2029, U+202F, U+205F and
  U+3000. None is a prefix or a suffix of another.
\<close>

definition spaceRunes :: "string list" where
  "spaceRunes =
    [[CHR 0x09], [CHR 0x0A], [CHR 0x0B], [CHR 0x0C], [CHR 0x0D], [CHR 0x20],
     [CHR 0xC2, CHR 0x85], [CHR 0xC2, CHR 0xA0],
     [CHR 0xE1, CHR 0x9A, CHR 0x80],
     [CHR 0xE2, CHR 0x80, CHR 0x80], [CHR 0xE2, CHR 0x80, CHR 0x81],
     [CHR 0xE2, CHR 0x80, CHR 0x82], [CHR 0xE2, CHR 0x80, CHR 0x83],
     [CHR 0xE2, CHR 0x80, CHR 0x84], [CHR 0xE2, CHR 0x80, CHR 0x85],
     [CHR 0xE2, CHR 0x80, CHR 0x86], [CHR 0xE2, CHR 0x80, CHR 0x87],
     [CHR 0xE2, CHR 0x80, CHR 0x88], [CHR 0xE2, CHR 0x80, CHR 0x89],
     [CHR 0xE2, CHR 0x80, CHR 0x8A],
     [CHR 0xE2, CHR 0x80, CHR 0xA8], [CHR 0xE2, CHR 0x80, CHR 0xA9],
     [CHR 0xE2, CHR 0x80, CHR 0xAF], [CHR 0xE2, CHR 0x81, CHR 0x9F],
     [CHR 0xE3, CHR 0x80, CHR 0x80]]"

definition startsWith :: "string \<Rightarrow> string \<Rightarrow> bool" where
  "startsWith s w = (w \<noteq> [] \<and> take (length w) s = w)"

function trimPrefixes :: "string list \<Rightarrow> string \<Rightarrow> string" where
  "trimPrefixes ws s =
     (case find (startsWith s) ws of
        Some w \<Rightarrow> trimPrefixes ws (drop (length w) s)
      | None \<Rightarrow> s)"
  by pat_completeness auto
termination
proof (relation "measure (\<lambda>(ws, s). length s)")
  show "wf (measure (\<lambda>(ws, s). length s))" by simp
next
  fix ws :: "string list" and s w :: string
  assume "find (startsWith s) ws = Some w"
  then have "startsWith s w"
    by (auto simp: find_Some_iff)
  then have "w \<noteq> []" and "take (length w) s = w"
    by (simp_all add: startsWith_def)
  then have "s \<noteq> []" by auto
  with \<open>w \<noteq> []\<close> show "((ws, drop (length w) s), (ws, s)) \<in> measure (\<lambda>(ws, s). length s)"
    by simp
qed

definition TrimSpace :: "string \<Rightarrow> string" where
  "TrimSpace s = rev (trimPrefixes (map rev spaceRunes) (rev (trimPrefixes spaceRunes s)))"

text \<open>
  The pattern \<open>\b(A|B)\b\<close>. For Go's regexp package \<open>\b\<close> is the ASCII word boundary:
  exactly one of the two neighbouring bytes is a word character \<open>[0-9A-Za-z_]\<close>, the
  ends of the text counting as non-word.
\<close>

definition isWordChar :: "char \<Rightarrow> bool" where
  "isWordChar c =
    (let n = (of_char c :: nat)
     in (48 \<le> n \<and> n \<le> 57) \<or> (65 \<le> n \<and> n \<le> 90) \<or> n = 95 \<or> (97 \<le> n \<and> n \<le> 122))"

fun isWordAt :: "char option \<Rightarrow> bool" where
  "isWordAt None = False"
| "isWordAt (Some c) = isWordChar c"

definition wordBoundary :: "char option \<Rightarrow> char option \<Rightarrow> bool" where
  "wordBoundary l r = (isWordAt l \<noteq> isWordAt r)"

fun firstByte :: "string \<Rightarrow> char option" where
  "firstByte [] = None"
| "firstByte (c # cs) = Some c"

text \<open>
  The leftmost match, scanning from the left with the byte before the current position;
  the result is the slice \<open>FindStringSubmatch\<close> returns: the whole match and the group,
  or the empty slice (nil) when there is no match.
\<close>

fun regexFind :: "char option \<Rightarrow> string \<Rightarrow> string list" where
  "regexFind prev [] = []"
| "regexFind prev (c # cs) =
     (if wordBoundary prev (Some c) \<and> (c = CHR ''A'' \<or> c = CHR ''B'')
          \<and> wordBoundary (Some c) (firstByte cs)
      then [[c], [c]]
      else regexFind (Some c) cs)"

definition FindStringSubmatch :: "string \<Rightarrow> string list" where
  "FindStringSubmatch s = regexFind None s"

definition cleanAnswer :: "string \<Rightarrow> string" where
  "cleanAnswer modelPred =
    (let trimmed = TrimSpace modelPred;
         matches = FindStringSubmatch trimmed
     in if length matches > 0 then matches ! 0 else InvalidAns)"

subsection \<open>The remote call\<close>

text \<open>
  The remote model is a collaborator outside the program. Its reply to a user prompt is
  \<open>Inl err\<close> when \<open>CallExternalAPI\<close> returns an error, and otherwise \<open>Inr a\<close> with \<open>a\<close> the
  \<open>answer\<close> field \<open>askQuestion\<close> reads from the body (the empty string when the body does
  not decode or has no such field). System message, temperature and top-p are constants
  of the request. The list of prompts sent so far is threaded through, so that every
  call made is on record.
\<close>

type_synonym collaborator = "string \<Rightarrow> string + string"

definition askQuestion :: "collaborator \<Rightarrow> string \<Rightarrow> string list \<Rightarrow> (string + string) \<times> string list" where
  "askQuestion api inputText sent =
    (case api inputText of
       Inl err \<Rightarrow> (Inl err, sent @ [inputText])
     | Inr ans \<Rightarrow> (Inr ans, sent @ [inputText]))"

subsection \<open>Updating the shared counters\<close>

text \<open>
  The tail of \<open>processSample\<close> as the memory operations it performs on the shared
  \<open>Stats\<close>: \<open>atomic.AddInt32\<close> is one indivisible operation; the statement
  \<open>stats.totalTime += d\<close> is a plain read of the field followed by a plain write of the
  sum. The value read lives in a register of the executing goroutine.
\<close>

datatype counter = Total | Correct | Invalid

datatype statsOp = AtomicAddInt32 counter "32 word" | LoadTotalTime | AddStoreTotalTime real

definition statsUpdate :: "bool \<Rightarrow> bool \<Rightarrow> real \<Rightarrow> statsOp list" where
  "statsUpdate isCorrect isInvalid d =
     (if isCorrect then [AtomicAddInt32 Correct 1] else [])
     @ (if isInvalid then [AtomicAddInt32 Invalid 1] else [])
     @ [AtomicAddInt32 Total 1, LoadTotalTime, AddStoreTotalTime d]"

fun execOp :: "statsOp \<Rightarrow> Stats \<times> real \<Rightarrow> Stats \<times> real" where
  "execOp (AtomicAddInt32 Total n) (st, reg) = (st\<lparr>total := total st + n\<rparr>, reg)"
| "execOp (AtomicAddInt32 Correct n) (st, reg) = (st\<lparr>correct := correct st + n\<rparr>, reg)"
| "execOp (AtomicAddInt32 Invalid n) (st, reg) = (st\<lparr>invalid := invalid st + n\<rparr>, reg)"
| "execOp LoadTotalTime (st, reg) = (st, totalTime st)"
| "execOp (AddStoreTotalTime d) (st, reg) = (st\<lparr>totalTime := reg + d\<rparr>, reg)"

text \<open>One goroutine running its operations without interference.\<close>

definition runOps :: "statsOp list \<Rightarrow> Stats \<Rightarrow> Stats" where
  "runOps ops st = fst (fold execOp ops (st, 0))"

text \<open>
  Several goroutines on the same \<open>Stats\<close>: each has its remaining operations and its
  register; the schedule names the goroutine that performs its next operation.
\<close>

fun interleave :: "nat list \<Rightarrow> Stats \<times> (statsOp list \<times> real) list \<Rightarrow> Stats \<times> (statsOp list \<times> real) list" where
  "interleave [] cfg = cfg"
| "interleave (i # sched) (st, ths) =
     (if i < length ths
      then (case ths ! i of
              ([], reg) \<Rightarrow> interleave sched (st, ths)
            | (opn # ops, reg) \<Rightarrow>
                (case execOp opn (st, reg) of
                   (st', reg') \<Rightarrow> interleave sched (st', ths[i := (ops, reg')])))
      else interleave sched (st, ths))"

subsection \<open>Processing one sample\<close>

text \<open>
  What one invocation of \<open>processSample\<close> takes from outside: the random tape of its
  shuffle, the collaborator, and the two readings of \<open>time.Since(startTime)\<close>.
\<close>

record CallEnv =
  shuffleTape :: "nat \<Rightarrow> nat"
  remote :: collaborator
  sinceStats :: real
  sinceResponse :: real

definition processSample :: "CallEnv \<Rightarrow> Sample \<Rightarrow> Stats \<times> string list \<Rightarrow> panic + (Response \<times> Stats \<times> string list)" where
  "processSample env sample w =
    (case w of (stats, sent) \<Rightarrow>
     (case buildPrompt sample NShot (shuffleTape env) of
        Inl e \<Rightarrow> Inl e
      | Inr inputText \<Rightarrow>
          (case askQuestion (remote env) inputText sent of
             (reply, sent') \<Rightarrow>
               (let modelCompletion = (case reply of Inl err \<Rightarrow> InvalidAns | Inr c \<Rightarrow> c);
                    modelAnswer = cleanAnswer modelCompletion;
                    correctAnswer = (if Label sample = ''1'' then ''B'' else ''A'');
                    isCorrect = (modelAnswer = correctAnswer);
                    isInvalid = (modelAnswer = InvalidAns);
                    stats' = runOps (statsUpdate isCorrect isInvalid (sinceStats env)) stats
                in Inr (\<lparr>RPremise = Premise sample,
                          RChoice1 = Choice1 sample,
                          RChoice2 = Choice2 sample,
                          CausalQuestion = Question sample,
                          CorrectAnswer = correctAnswer,
                          ModelAnswer = modelAnswer,
                          ModelCompletion = modelCompletion,
                          IsCorrect = isCorrect,
                          IsInvalid = isInvalid,
                          ProcessingTime = sinceResponse env\<rparr>,
                        stats', sent')))))"

text \<open>
  The loop of one worker, \<open>for sample := range samplesChan\<close>, over the samples it receives,
  each with the environment of its invocation; the results are those it sends on.
\<close>

fun workerLoop :: "(CallEnv \<times> Sample) list \<Rightarrow> Stats \<times> string list \<Rightarrow> panic + (Response list \<times> Stats \<times> string list)" where
  "workerLoop [] w = Inr ([], w)"
| "workerLoop ((env, sample) # rest) w =
     (case processSample env sample w of
        Inl e \<Rightarrow> Inl e
      | Inr (r, w') \<Rightarrow>
          (case workerLoop rest w' of
             Inl e \<Rightarrow> Inl e
           | Inr (rs, w'') \<Rightarrow> Inr (r # rs, w'')))"

text \<open>
  The counters \<open>main\<close> reads once the workers are done:
  \<open>atomic.LoadInt32\<close> of \<open>total\<close>, \<open>correct\<close> and \<open>invalid\<close>, here after a run of the
  given invocations from fresh counters.
\<close>

definition finalCounts :: "(CallEnv \<times> Sample) list \<Rightarrow> (32 word \<times> 32 word \<times> 32 word) option" where
  "finalCounts jobs =
    (case workerLoop jobs (zeroStats, []) of
       Inl e \<Rightarrow> None
     | Inr (rs, st, sent) \<Rightarrow> Some (total st, correct st, invalid st))"

subsection \<open>Floating point and progress snapshots\<close>

text \<open>
  A \<open>float64\<close> value: a finite number, or one of the special values a division can
  produce. Finite results are exact reals here (no rounding); operands converted from
  integers are never negative zero.
\<close>

datatype float64 = Finite real | NaN | PosInf | NegInf

fun fdiv :: "float64 \<Rightarrow> float64 \<Rightarrow> float64" where
  "fdiv (Finite a) (Finite b) =
     (if b \<noteq> 0 then Finite (a / b)
      else if a = 0 then NaN
      else if a > 0 then PosInf else NegInf)"
| "fdiv (Finite a) PosInf = Finite 0"
| "fdiv (Finite a) NegInf = Finite 0"
| "fdiv PosInf (Finite b) = (if b \<ge> 0 then PosInf else NegInf)"
| "fdiv NegInf (Finite b) = (if b \<ge> 0 then NegInf else PosInf)"
| "fdiv x y = NaN"

fun fmul :: "float64 \<Rightarrow> float64 \<Rightarrow> float64" where
  "fmul (Finite a) (Finite b) = Finite (a * b)"
| "fmul PosInf (Finite b) = (if b = 0 then NaN else if b > 0 then PosInf else NegInf)"
| "fmul NegInf (Finite b) = (if b = 0 then NaN else if b > 0 then NegInf else PosInf)"
| "fmul (Finite a) PosInf = (if a = 0 then NaN else if a > 0 then PosInf else NegInf)"
| "fmul (Finite a) NegInf = (if a = 0 then NaN else if a > 0 then NegInf else PosInf)"
| "fmul PosInf PosInf = PosInf"
| "fmul NegInf NegInf = PosInf"
| "fmul PosInf NegInf = NegInf"
| "fmul NegInf PosInf = NegInf"
| "fmul x y = NaN"

definition ofInt32 :: "32 word \<Rightarrow> float64" where
  "ofInt32 w = Finite (real_of_int (sint w))"

text \<open>
  A \<open>LogEntry\<close>. \<open>Accuracy\<close> holds the number the source prints with \<open>%.2f%%\<close>, and
  \<open>ETA\<close> the seconds it hands to \<open>formatTime\<close>; the two renderings are not modelled.
  The time stamp is the clock's reading, an input.
\<close>

record LogEntry =
  Timestamp :: string
  TotalQuestions :: int
  CorrectNum :: int
  Accuracy :: float64
  InvalidAnswers :: int
  ETA :: float64

text \<open>The \<open>case <-ticker.C\<close> branch of the collector.\<close>

definition tickSnapshot :: "string \<Rightarrow> Stats \<Rightarrow> LogEntry" where
  "tickSnapshot now st =
    (let accuracy = fmul (fdiv (ofInt32 (correct st)) (ofInt32 (total st))) (Finite 100);
         avgTime = fdiv (Finite (totalTime st)) (ofInt32 (total st));
         remaining = fmul (ofInt32 (3500000 - total st)) avgTime
     in \<lparr>Timestamp = now,
         TotalQuestions = sint (total st),
         CorrectNum = sint (correct st),
         Accuracy = accuracy,
         InvalidAnswers = sint (invalid st),
         ETA = remaining\<rparr>)"

text \<open>The final statistics of \<open>main\<close>; \<open>elapsed\<close> is \<open>time.Since(startTime)\<close> there.\<close>

definition finalSnapshot :: "string \<Rightarrow> real \<Rightarrow> Stats \<Rightarrow> LogEntry" where
  "finalSnapshot now elapsed st =
    (let accuracy = fmul (fdiv (ofInt32 (correct st)) (ofInt32 (total st))) (Finite 100)
     in \<lparr>Timestamp = now,
         TotalQuestions = sint (total st),
         CorrectNum = sint (correct st),
         Accuracy = accuracy,
         InvalidAnswers = sint (invalid st),
         ETA = Finite elapsed\<rparr>)"

subsection \<open>The sample source\<close>

text \<open>
  The dataset as the program meets it: \<open>None\<close> when \<open>os.Open\<close> fails, otherwise the rows
  the csv reader yields in turn, a row being its fields or a syntax error. The reader
  takes the field count of the first row as the count every later row must have.
\<close>

datatype csvRow = Row "string list" | SyntaxError

datatype fatal = OpenFailed | HeaderReadFailed

text \<open>
  How the loading goroutine ends: \<open>log.Fatal\<close> (the process exits), a panic, or the
  closing of \<open>samplesChan\<close>; the last two come with the samples sent before.
\<close>

datatype loaderOutcome = Fatal fatal | Crashed "Sample list" panic | Finished "Sample list"

definition colMap :: "string list \<Rightarrow> (string \<rightharpoonup> nat)" where
  "colMap header = fold (\<lambda>i m. m(header ! i \<mapsto> i)) [0..<length header] Map.empty"

text \<open>Reading a Go map at a key it does not hold gives the zero value.\<close>

definition colIndex :: "(string \<rightharpoonup> nat) \<Rightarrow> string \<Rightarrow> nat" where
  "colIndex m name = (case m name of None \<Rightarrow> 0 | Some i \<Rightarrow> i)"

definition fieldAt :: "string list \<Rightarrow> nat \<Rightarrow> panic + string" where
  "fieldAt rec i = (if i < length rec then Inr (rec ! i) else Inl IndexOutOfRange)"

definition mkSample :: "(string \<rightharpoonup> nat) \<Rightarrow> string list \<Rightarrow> panic + Sample" where
  "mkSample m rec =
    (case fieldAt rec (colIndex m ''premise'') of Inl e \<Rightarrow> Inl e | Inr p \<Rightarrow>
     (case fieldAt rec (colIndex m ''choice1'') of Inl e \<Rightarrow> Inl e | Inr c1 \<Rightarrow>
      (case fieldAt rec (colIndex m ''choice2'') of Inl e \<Rightarrow> Inl e | Inr c2 \<Rightarrow>
       (case fieldAt rec (colIndex m ''question'') of Inl e \<Rightarrow> Inl e | Inr q \<Rightarrow>
        (case fieldAt rec (colIndex m ''label'') of Inl e \<Rightarrow> Inl e | Inr l \<Rightarrow>
           Inr \<lparr>Premise = p, Choice1 = c1, Choice2 = c2, Question = q, Label = l\<rparr>)))))"

text \<open>The records \<open>reader.Read()\<close> returns before its first error (end of file included).\<close>

fun readRecords :: "nat \<Rightarrow> csvRow list \<Rightarrow> string list list" where
  "readRecords n [] = []"
| "readRecords n (SyntaxError # rest) = []"
| "readRecords n (Row r # rest) = (if length r = n then r # readRecords n rest else [])"

fun sendLoop :: "(string \<rightharpoonup> nat) \<Rightarrow> string list list \<Rightarrow> Sample list \<Rightarrow> loaderOutcome" where
  "sendLoop m [] sentSamples = Finished sentSamples"
| "sendLoop m (rec # rest) sentSamples =
     (case mkSample m rec of
        Inl e \<Rightarrow> Crashed sentSamples e
      | Inr sample \<Rightarrow> sendLoop m rest (sentSamples @ [sample]))"

fun loadSamples :: "csvRow list option \<Rightarrow> loaderOutcome" where
  "loadSamples None = Fatal OpenFailed"
| "loadSamples (Some []) = Fatal HeaderReadFailed"
| "loadSamples (Some (SyntaxError # rows)) = Fatal HeaderReadFailed"
| "loadSamples (Some (Row header # rows)) =
     sendLoop (colMap header) (readRecords (length header) rows) []"

text \<open>The five column names the loader looks up.\<close>

definition requiredColumns :: "string list" where
  "requiredColumns = [''premise'', ''choice1'', ''choice2'', ''question'', ''label'']"

subsection \<open>The goroutines of main\<close>

text \<open>
  The pipeline as a labelled transition system. A state holds the two channels with
  their buffers, what each goroutine is at, the two collections and the shared
  counters. An event is one step of one goroutine; \<open>step\<close> gives the next state, or
  \<open>None\<close> when the goroutine cannot take that step in this state (it blocks, or it is
  elsewhere in its code). A worker's \<open>processSample\<close> is one step.
\<close>

datatype wstate = Receiving | Sending Response | Exited

datatype cstate = Draining | Closed

datatype mainPc = AtWait | AtClose | AtFinal | AfterFinal

record Pipeline =
  pending :: "Sample list"
  samplesChan :: "Sample list"
  samplesClosed :: bool
  workers :: "wstate list"
  resultsChan :: "Response list"
  resultsClosed :: bool
  batch :: "Response list"
  collector :: cstate
  resultsColl :: "Response list"
  logsColl :: "LogEntry list"
  pc :: mainPc
  stats :: Stats
  requests :: "string list"

datatype event =
    LoaderSend
  | LoaderClose
  | WorkerTake nat CallEnv
  | WorkerSend nat
  | WorkerExit nat
  | CollectorRecv
  | CollectorTick string
  | CollectorStop
  | MainWaitReturns
  | MainCloseResults
  | MainFinalLog string real

text \<open>\<open>samples\<close> are the records the loading goroutine will send.\<close>

definition initial :: "Sample list \<Rightarrow> Pipeline" where
  "initial samples =
    \<lparr>pending = samples, samplesChan = [], samplesClosed = False,
     workers = replicate WorkerCount Receiving,
     resultsChan = [], resultsClosed = False,
     batch = [], collector = Draining, resultsColl = [], logsColl = [],
     pc = AtWait, stats = zeroStats, requests = []\<rparr>"

fun step :: "event \<Rightarrow> Pipeline \<Rightarrow> Pipeline option" where
  "step LoaderSend s =
     (case pending s of
        sample # rest \<Rightarrow>
          if length (samplesChan s) < WorkerCount \<and> \<not> samplesClosed s
          then Some (s\<lparr>pending := rest, samplesChan := samplesChan s @ [sample]\<rparr>)
          else None
      | [] \<Rightarrow> None)"
| "step LoaderClose s =
     (if pending s = [] \<and> \<not> samplesClosed s then Some (s\<lparr>samplesClosed := True\<rparr>) else None)"
| "step (WorkerTake i env) s =
     (if i < length (workers s) \<and> workers s ! i = Receiving
      then (case samplesChan s of
              sample # rest \<Rightarrow>
                (case processSample env sample (stats s, requests s) of
                   Inl e \<Rightarrow> None
                 | Inr (result, st', sent') \<Rightarrow>
                     Some (s\<lparr>samplesChan := rest, workers := (workers s)[i := Sending result],
                             stats := st', requests := sent'\<rparr>))
            | [] \<Rightarrow> None)
      else None)"
| "step (WorkerSend i) s =
     (if i < length (workers s)
      then (case workers s ! i of
              Sending result \<Rightarrow>
                if length (resultsChan s) < BatchSize \<and> \<not> resultsClosed s
                then Some (s\<lparr>resultsChan := resultsChan s @ [result],
                             workers := (workers s)[i := Receiving]\<rparr>)
                else None
            | _ \<Rightarrow> None)
      else None)"
| "step (WorkerExit i) s =
     (if i < length (workers s) \<and> workers s ! i = Receiving
         \<and> samplesChan s = [] \<and> samplesClosed s
      then Some (s\<lparr>workers := (workers s)[i := Exited]\<rparr>)
      else None)"
| "step CollectorRecv s =
     (if collector s = Draining
      then (case resultsChan s of
              result # rest \<Rightarrow>
                (let batch' = batch s @ [result]
                 in if length batch' \<ge> BatchSize
                    then Some (s\<lparr>resultsChan := rest, resultsColl := resultsColl s @ batch',
                                 batch := []\<rparr>)
                    else Some (s\<lparr>resultsChan := rest, batch := batch'\<rparr>))
            | [] \<Rightarrow> None)
      else None)"
| "step (CollectorTick now) s =
     (if collector s = Draining
      then Some (s\<lparr>logsColl := logsColl s @ [tickSnapshot now (stats s)]\<rparr>)
      else None)"
| "step CollectorStop s =
     (if collector s = Draining \<and> resultsChan s = [] \<and> resultsClosed s
      then Some (s\<lparr>resultsColl := (if length (batch s) > 0 then resultsColl s @ batch s
                                     else resultsColl s),
                   collector := Closed\<rparr>)
      else None)"
| "step MainWaitReturns s =
     (if pc s = AtWait \<and> list_all (\<lambda>w. w = Exited) (workers s)
      then Some (s\<lparr>pc := AtClose\<rparr>)
      else None)"
| "step MainCloseResults s =
     (if pc s = AtClose then Some (s\<lparr>resultsClosed := True, pc := AtFinal\<rparr>) else None)"
| "step (MainFinalLog now elapsed) s =
     (if pc s = AtFinal
      then Some (s\<lparr>logsColl := logsColl s @ [finalSnapshot now elapsed (stats s)],
                   pc := AfterFinal\<rparr>)
      else None)"

fun run :: "event list \<Rightarrow> Pipeline \<Rightarrow> Pipeline option" where
  "run [] s = Some s"
| "run (e # es) s = (case step e s of None \<Rightarrow> None | Some s' \<Rightarrow> run es s')"

subsection \<open>The results aggregator (results/main.go)\<close>

text \<open>
  What \<open>calculateAccuracy\<close> prints and saves for one database: the numbers of its
  metadata text. The cursor is the list of documents, \<open>None\<close> for one that fails to
  decode; \<open>Find\<close> itself may fail. Go's \<open>int\<close> counts documents held in memory and is
  modelled as \<^typ>\<open>int\<close>.
\<close>

record Metadata =
  Database :: string
  TotalSamples :: int
  CorrectAnswers :: int
  InvalidAnswers' :: int
  OverallAccuracy :: float64
  AccuracyExcludingInvalids :: float64

fun countLoop :: "Response option list \<Rightarrow> int \<times> int \<times> int \<Rightarrow> int \<times> int \<times> int" where
  "countLoop [] acc = acc"
| "countLoop (None # rest) acc = countLoop rest acc"
| "countLoop (Some res # rest) (t, c, i) =
     countLoop rest (t + 1, (if IsCorrect res then c + 1 else c), (if IsInvalid res then i + 1 else i))"

definition calculateAccuracy :: "string \<Rightarrow> Response option list option \<Rightarrow> Metadata option" where
  "calculateAccuracy dbName cursor =
    (case cursor of
       None \<Rightarrow> None
     | Some docs \<Rightarrow>
         (case countLoop docs (0, 0, 0) of
            (t, c, i) \<Rightarrow>
              if t = 0 then None
              else
                (let accuracy = fmul (fdiv (Finite (real_of_int c)) (Finite (real_of_int t))) (Finite 100);
                     validTotal = t - i;
                     validAccuracy =
                       (if validTotal > 0
                        then fmul (fdiv (Finite (real_of_int c)) (Finite (real_of_int validTotal))) (Finite 100)
                        else Finite 0)
                 in Some \<lparr>Database = dbName, TotalSamples = t, CorrectAnswers = c,
                          InvalidAnswers' = i, OverallAccuracy = accuracy,
                          AccuracyExcludingInvalids = validAccuracy\<rparr>)))"

subsection \<open>Auxiliary notions\<close>

text \<open>
  \<open>invocation job p r\<close>: the invocation \<open>job\<close> of \<open>processSample\<close> built the prompt \<open>p\<close> and
  \<open>r\<close> carries the scoring the source computes from the collaborator's reply to \<open>p\<close>.
  It abbreviates what the lemmas below establish of \<open>processSample\<close>.
\<close>

definition invocation :: "CallEnv \<times> Sample \<Rightarrow> string \<Rightarrow> Response \<Rightarrow> bool" where
  "invocation job p r =
    (buildPrompt (snd job) NShot (shuffleTape (fst job)) = Inr p
     \<and> ModelCompletion r = (case remote (fst job) p of Inl err \<Rightarrow> InvalidAns | Inr c \<Rightarrow> c)
     \<and> ModelAnswer r = cleanAnswer (ModelCompletion r)
     \<and> CorrectAnswer r = (if Label (snd job) = ''1'' then ''B'' else ''A'')
     \<and> IsCorrect r = (ModelAnswer r = CorrectAnswer r)
     \<and> IsInvalid r = (ModelAnswer r = InvalidAns))"

text \<open>
  A standalone \<open>A\<close> or \<open>B\<close> token of a text, in the words of the specification: position
  \<open>i\<close> of \<open>s\<close> holds the letter \<open>A\<close> or \<open>B\<close>, and neither neighbour of the position, where there
  is one, is a letter, a digit or an underscore.
\<close>

definition standaloneAt :: "string \<Rightarrow> nat \<Rightarrow> bool" where
  "standaloneAt s i =
    (i < length s \<and> (s ! i = CHR ''A'' \<or> s ! i = CHR ''B'')
     \<and> (if i = 0 then True else \<not> isWordChar (s ! (i - 1)))
     \<and> (if Suc i = length s then True else \<not> isWordChar (s ! Suc i)))"

text \<open>
  What holds of every state the goroutines can reach: \<open>main\<close> is past \<open>wg.Wait()\<close> only
  when every worker has left its loop, it is past \<open>close(resultsChan)\<close> only when that
  channel is closed, the loader closes \<open>samplesChan\<close> only with nothing left to send, and
  a worker has left its loop only when \<open>samplesChan\<close> is closed and empty.
\<close>

definition reachableInv :: "Pipeline \<Rightarrow> bool" where
  "reachableInv s =
    (length (workers s) = WorkerCount
     \<and> (pc s = AtWait \<or> list_all (\<lambda>w. w = Exited) (workers s))
     \<and> (pc s = AtWait \<or> pc s = AtClose \<or> resultsClosed s)
     \<and> (pending s = [] \<or> (samplesClosed s = False))
     \<and> (list_all (\<lambda>w. w \<noteq> Exited) (workers s) \<or> (samplesClosed s \<and> samplesChan s = [])))"

subsection \<open>Concrete inputs\<close>

text \<open>
  A sample with a given label, stub collaborators, and two random tapes: \<open>keepOrder\<close>
  makes every swap of the shuffle the identity, \<open>alwaysZero\<close> draws \<open>0\<close> every time (the
  exemplar about baking a cake then comes first).
\<close>

definition exampleSample :: "string \<Rightarrow> Sample" where
  "exampleSample l =
    \<lparr>Premise = ''dig a hole'', Choice1 = ''put the sapling in'', Choice2 = ''paint the fence'',
     Question = ''effect'', Label = l\<rparr>"

definition exampleEnv :: "collaborator \<Rightarrow> (nat \<Rightarrow> nat) \<Rightarrow> CallEnv" where
  "exampleEnv api tape = \<lparr>shuffleTape = tape, remote = api, sinceStats = 2, sinceResponse = 2\<rparr>"

definition alwaysA :: collaborator where
  "alwaysA prompt = Inr ''A''"

definition alwaysFails :: collaborator where
  "alwaysFails prompt = Inl ''connection refused''"

definition keepOrder :: "nat \<Rightarrow> nat" where
  "keepOrder k = 3 - k"

definition alwaysZero :: "nat \<Rightarrow> nat" where
  "alwaysZero k = 0"

definition jobs3 :: "(CallEnv \<times> Sample) list" where
  "jobs3 = [(exampleEnv alwaysA keepOrder, exampleSample ''0''),
            (exampleEnv alwaysA alwaysZero, exampleSample ''1''),
            (exampleEnv alwaysA keepOrder, exampleSample ''0'')]"

definition jobsFailing :: "(CallEnv \<times> Sample) list" where
  "jobsFailing = [(exampleEnv alwaysFails keepOrder, exampleSample ''0''),
                  (exampleEnv alwaysFails alwaysZero, exampleSample ''1'')]"

definition exampleResult :: "bool \<Rightarrow> bool \<Rightarrow> Response" where
  "exampleResult c i =
    \<lparr>RPremise = ''dig a hole'', RChoice1 = ''put the sapling in'', RChoice2 = ''paint the fence'',
     CausalQuestion = ''effect'', CorrectAnswer = ''A'',
     ModelAnswer = (if c then ''A'' else if i then ''[invalid]'' else ''B''),
     ModelCompletion = (if c then ''A'' else if i then ''no idea'' else ''B''),
     IsCorrect = c, IsInvalid = i, ProcessingTime = 2\<rparr>"

text \<open>
  A deterministic collaborator that reads its prompt: the byte at offset 51 is the first
  letter of the activity of the first exemplar, and the reply is \<open>A\<close> when that exemplar
  is the one about going grocery shopping, \<open>B\<close> otherwise.
\<close>

definition firstExemplarStub :: collaborator where
  "firstExemplarStub prompt =
    (case drop 51 prompt of
       c # rest \<Rightarrow> if c = CHR ''g'' then Inr ''A'' else Inr ''B''
     | [] \<Rightarrow> Inr ''B'')"

definition samples3 :: "Sample list" where
  "samples3 = [exampleSample ''0'', exampleSample ''1'', exampleSample ''0'']"

text \<open>
  Two schedules of a run over one sample. In both the sample is loaded, processed and
  its result sent, the loader closes the intake, the fifty workers leave and \<open>main\<close>
  returns from \<open>wg.Wait()\<close> and closes \<open>resultsChan\<close>. In \<open>shutdownRace\<close> \<open>main\<close> then writes
  the final snapshot before the collector has run at all; in \<open>orderlyShutdown\<close> the
  collector receives the result, sees the closed channel and stops first.
\<close>

definition commonPrefix :: "event list" where
  "commonPrefix =
    [LoaderSend, WorkerTake 0 (exampleEnv alwaysA keepOrder), WorkerSend 0, LoaderClose]
    @ map WorkerExit [0..<50]
    @ [MainWaitReturns, MainCloseResults]"

definition shutdownRace :: "event list" where
  "shutdownRace = commonPrefix @ [MainFinalLog ''2025-03-21T10:00:07Z'' 7]"

definition orderlyShutdown :: "event list" where
  "orderlyShutdown =
    commonPrefix @ [CollectorRecv, CollectorStop, MainFinalLog ''2025-03-21T10:00:07Z'' 7]"

section \<open>Verification\<close>

subsection \<open>Prompt construction never panics; one invocation; the worker loop\<close>

lemma swap_set: "i < length xs \<Longrightarrow> j < length xs \<Longrightarrow> set (swap xs i j) = set xs"
  by (simp add: swap_def)

lemma shuffleFrom_set: "i < length xs \<Longrightarrow> set (shuffleFrom tape k i xs) = set xs"
proof (induction i arbitrary: k xs)
  case 0 then show ?case by simp
next
  case (Suc i)
  have j: "tape k mod (Suc i + 1) < length xs"
    using Suc.prems by (metis Suc_eq_plus1 Suc_leI le_trans less_Suc_eq_le mod_less_divisor zero_less_Suc not_less)
  have len: "length (swap xs (Suc i) (tape k mod (Suc i + 1))) = length xs"
    by (simp add: swap_def)
  show ?case using Suc.prems j Suc.IH[of "swap xs (Suc i) (tape k mod (Suc i + 1))" "Suc k"] len
    by (simp add: swap_set)
qed

lemma Shuffle_set: "set (Shuffle tape xs) = set xs"
proof (cases xs)
  case Nil then show ?thesis by (simp add: Shuffle_def)
next
  case (Cons x ys)
  then show ?thesis unfolding Shuffle_def by (intro shuffleFrom_set) simp
qed

lemma demoLoop_total:
  "\<forall>ex\<in>set exs. \<exists>c0 c1 r. choices ex = c0 # c1 # r \<Longrightarrow> \<exists>t. demoLoop exs demo = Inr t"
proof (induction exs arbitrary: demo)
  case Nil then show ?case by simp
next
  case (Cons ex exs)
  then obtain c0 c1 r where "choices ex = c0 # c1 # r" by auto
  then obtain q where "getQuestionText (activityName ex) (premise ex) (choices ex) (question ex) = Inr q"
    by (simp add: getQuestionText_def)
  then show ?case using Cons by simp
qed

lemma createDemoText_total: "\<exists>t. createDemoText n tape = Inr t"
proof -
  have "\<forall>ex\<in>set demoExamples. \<exists>c0 c1 r. choices ex = c0 # c1 # r"
    by (simp add: demoExamples_def)
  then have "\<forall>ex\<in>set (take n (Shuffle tape demoExamples)). \<exists>c0 c1 r. choices ex = c0 # c1 # r"
    using Shuffle_set[of tape demoExamples] by (metis in_set_takeD)
  then show ?thesis unfolding createDemoText_def by (rule demoLoop_total)
qed

lemma buildPrompt_total: "\<exists>p. buildPrompt sample n tape = Inr p"
proof -
  obtain t where "createDemoText n tape = Inr t" using createDemoText_total by blast
  then show ?thesis by (simp add: buildPrompt_def getQuestionText_def)
qed

lemma runOps_statsUpdate:
  "runOps (statsUpdate c i d) st =
     st\<lparr>total := total st + 1,
        correct := (if c then correct st + 1 else correct st),
        invalid := (if i then invalid st + 1 else invalid st),
        totalTime := totalTime st + d\<rparr>"
  by (simp add: runOps_def statsUpdate_def)

lemma processSample_invocation:
  "\<exists>p r st'. processSample env sample (st, sent) = Inr (r, st', sent @ [p])
     \<and> invocation (env, sample) p r
     \<and> total st' = total st + 1
     \<and> correct st' = correct st + (if IsCorrect r then 1 else 0)
     \<and> invalid st' = invalid st + (if IsInvalid r then 1 else 0)
     \<and> totalTime st' = totalTime st + sinceStats env"
proof -
  obtain p where p: "buildPrompt sample NShot (shuffleTape env) = Inr p"
    using buildPrompt_total by blast
  show ?thesis
    using p
    by (cases "remote env p")
       (simp_all add: processSample_def askQuestion_def runOps_statsUpdate invocation_def Let_def)
qed

lemma workerLoop_invocations:
  "\<exists>rs st' ps. workerLoop jobs (st, sent) = Inr (rs, st', sent @ ps)
     \<and> list_all2 (\<lambda>job (p, r). invocation job p r) jobs (zip ps rs)
     \<and> length ps = length jobs \<and> length rs = length jobs
     \<and> total st' = total st + of_nat (length rs)
     \<and> correct st' = correct st + of_nat (length (filter IsCorrect rs))
     \<and> invalid st' = invalid st + of_nat (length (filter IsInvalid rs))"
proof (induction jobs arbitrary: st sent)
  case Nil
  show ?case by simp
next
  case (Cons job jobs)
  obtain env sample where job: "job = (env, sample)" by (cases job)
  obtain p r st1 where one:
    "processSample env sample (st, sent) = Inr (r, st1, sent @ [p])"
    "invocation (env, sample) p r"
    "total st1 = total st + 1"
    "correct st1 = correct st + (if IsCorrect r then 1 else 0)"
    "invalid st1 = invalid st + (if IsInvalid r then 1 else 0)"
    using processSample_invocation[of env sample st sent] by blast
  obtain rs st' ps where rest:
    "workerLoop jobs (st1, sent @ [p]) = Inr (rs, st', (sent @ [p]) @ ps)"
    "list_all2 (\<lambda>job (p, r). invocation job p r) jobs (zip ps rs)"
    "length ps = length jobs" "length rs = length jobs"
    "total st' = total st1 + of_nat (length rs)"
    "correct st' = correct st1 + of_nat (length (filter IsCorrect rs))"
    "invalid st' = invalid st1 + of_nat (length (filter IsInvalid rs))"
    using Cons.IH[of st1 "sent @ [p]"] by blast
  have "workerLoop (job # jobs) (st, sent) = Inr (r # rs, st', sent @ (p # ps))"
    using one(1) rest(1) job by simp
  moreover have "list_all2 (\<lambda>job (p, r). invocation job p r) (job # jobs) (zip (p # ps) (r # rs))"
    using one(2) rest(2) job by simp
  moreover have "total st' = total st + of_nat (length (r # rs))"
    using one(3) rest(5) by simp
  moreover have "correct st' = correct st + of_nat (length (filter IsCorrect (r # rs)))"
    using one(4) rest(6) by simp
  moreover have "invalid st' = invalid st + of_nat (length (filter IsInvalid (r # rs)))"
    using one(5) rest(7) by simp
  moreover have "length (p # ps) = length (job # jobs)" "length (r # rs) = length (job # jobs)"
    using rest(3,4) by simp_all
  ultimately show ?case by blast
qed

subsection \<open>The two flags and the three counters\<close>

lemma partition_three:
  "\<forall>r\<in>set rs. \<not> (P r \<and> Q r) \<Longrightarrow>
   length rs = length (filter P rs) + length (filter (\<lambda>r. \<not> P r \<and> \<not> Q r) rs) + length (filter Q rs)"
  by (induction rs) auto

lemma answers_differ: "''A'' \<noteq> InvalidAns" "''B'' \<noteq> InvalidAns"
  by (simp_all add: InvalidAns_def)

lemma invocation_exclusive: "invocation job p r \<Longrightarrow> \<not> (IsCorrect r \<and> IsInvalid r)"
  unfolding invocation_def using answers_differ by (cases "Label (snd job) = ''1''") auto

lemma list_all2_zip_snd:
  assumes "list_all2 (\<lambda>job (p, r). R job p r) jobs (zip ps rs)"
    and "length ps = length jobs" and "length rs = length jobs" and "r \<in> set rs"
  shows "\<exists>job p. R job p r"
proof -
  from assms(4) obtain i where i: "i < length rs" "rs ! i = r"
    by (auto simp: in_set_conv_nth)
  from assms(1,2,3) have "\<forall>k<length rs. R (jobs ! k) (ps ! k) (rs ! k)"
    by (simp add: list_all2_conv_all_nth)
  with i have "R (jobs ! i) (ps ! i) r" by blast
  then show ?thesis by blast
qed

text \<open>
  Within one invocation the counters move one at a time: after the first operation of
  an invocation that scored a correct answer, \<open>correct\<close> is already \<open>1\<close> and \<open>total\<close> still
  \<open>0\<close>. A reading of the counters at such a moment is not covered by the theorem below.
\<close>

lemma counters_mid_invocation:
  "fst (interleave [0] (zeroStats, [(statsUpdate True False 2, 0)]))
     = \<lparr>total = 0, correct = 1, invalid = 0, totalTime = 0\<rparr>"
  by (simp add: statsUpdate_def zeroStats_def)

text \<open>
  Claim C1. Whatever the samples, the collaborator's replies and the shuffles, every
  result a worker produces has at most one of the two flags set (an invalid answer is
  not counted as correct), and after any number of completed invocations, starting from
  fresh counters, \<open>total\<close> is the number of results, \<open>correct\<close> the number of results
  flagged correct, \<open>invalid\<close> the number flagged invalid, so that \<open>total\<close> is \<open>correct\<close>
  plus the number of results with neither flag plus \<open>invalid\<close> (in \<open>int32\<close> arithmetic).
  The observation points are those between invocations: within one invocation the
  three counters are incremented one after the other.
\<close>

theorem flags_exclusive_and_counts_partition:
  "\<exists>rs st sent. workerLoop jobs (zeroStats, []) = Inr (rs, st, sent)
     \<and> (\<forall>r\<in>set rs. \<not> (IsCorrect r \<and> IsInvalid r))
     \<and> total st = of_nat (length rs)
     \<and> correct st = of_nat (length (filter IsCorrect rs))
     \<and> invalid st = of_nat (length (filter IsInvalid rs))
     \<and> total st = correct st + of_nat (length (filter (\<lambda>r. \<not> IsCorrect r \<and> \<not> IsInvalid r) rs)) + invalid st"
proof -
  obtain rs st ps where w:
    "workerLoop jobs (zeroStats, []) = Inr (rs, st, [] @ ps)"
    "list_all2 (\<lambda>job (p, r). invocation job p r) jobs (zip ps rs)"
    "length ps = length jobs" "length rs = length jobs"
    "total st = total zeroStats + of_nat (length rs)"
    "correct st = correct zeroStats + of_nat (length (filter IsCorrect rs))"
    "invalid st = invalid zeroStats + of_nat (length (filter IsInvalid rs))"
    using workerLoop_invocations[of jobs zeroStats "[]"] by blast
  have excl: "\<forall>r\<in>set rs. \<not> (IsCorrect r \<and> IsInvalid r)"
  proof
    fix r assume "r \<in> set rs"
    then obtain job p where "invocation job p r"
      using list_all2_zip_snd[OF w(2) w(3) w(4)] by blast
    then show "\<not> (IsCorrect r \<and> IsInvalid r)" by (rule invocation_exclusive)
  qed
  have t: "total st = of_nat (length rs)"
    and c: "correct st = of_nat (length (filter IsCorrect rs))"
    and i: "invalid st = of_nat (length (filter IsInvalid rs))"
    using w(5,6,7) by (simp_all add: zeroStats_def)
  have "(of_nat (length rs) :: 32 word) =
      of_nat (length (filter IsCorrect rs) + length (filter (\<lambda>r. \<not> IsCorrect r \<and> \<not> IsInvalid r) rs)
        + length (filter IsInvalid rs))"
    using partition_three[OF excl] by simp
  then have p: "total st = correct st + of_nat (length (filter (\<lambda>r. \<not> IsCorrect r \<and> \<not> IsInvalid r) rs)) + invalid st"
    unfolding t c i by (simp only: of_nat_add)
  show ?thesis
    by (intro exI conjI) (rule w(1), rule excl, rule t, rule c, rule i, rule p)
qed


theorem flags_exclusive_and_counts_partition_witness:
  "(case workerLoop jobs3 (zeroStats, []) of
      Inl e \<Rightarrow> False
    | Inr (rs, st, sent) \<Rightarrow>
        map IsCorrect rs = [True, False, True] \<and> map IsInvalid rs = [False, False, False]
        \<and> total st = 3 \<and> correct st = 2 \<and> invalid st = 0)"
proof -
  have "(case workerLoop jobs3 (zeroStats, []) of
      Inl e \<Rightarrow> False
    | Inr (rs, st, sent) \<Rightarrow>
        map IsCorrect rs = [True, False, True] \<and> map IsInvalid rs = [False, False, False]
        \<and> total st = 3 \<and> correct st = 2 \<and> invalid st = 0)"
    by code_simp
  with flags_exclusive_and_counts_partition[of jobs3] show ?thesis by blast
qed

subsection \<open>The derived correct answer\<close>

text \<open>
  Claim C10. \<open>processSample\<close> returns a result for every sample (it has no error
  path for a bad label), and the correct answer it derives is \<open>B\<close> exactly when the
  label is the string \<open>1\<close> and \<open>A\<close> exactly when the label is any other string; the
  correctness flag compares the extracted answer with it.
\<close>

theorem correct_answer_from_label:
  "\<exists>r st' sent'. processSample env sample (st, sent) = Inr (r, st', sent')
     \<and> (CorrectAnswer r = ''B'') = (Label sample = ''1'')
     \<and> (CorrectAnswer r = ''A'') = (Label sample \<noteq> ''1'')
     \<and> IsCorrect r = (ModelAnswer r = CorrectAnswer r)"
proof -
  obtain p r st' where
    "processSample env sample (st, sent) = Inr (r, st', sent @ [p])"
    "invocation (env, sample) p r"
    using processSample_invocation[of env sample st sent] by blast
  then show ?thesis
    by (auto simp: invocation_def)
qed

theorem correct_answer_from_label_witness:
  "(case processSample (exampleEnv alwaysA keepOrder) (exampleSample ''yes'') (zeroStats, []) of
      Inl e \<Rightarrow> False
    | Inr (r, st, sent) \<Rightarrow> CorrectAnswer r = ''A'' \<and> ModelAnswer r = ''A'' \<and> IsCorrect r)"
proof -
  have "(case processSample (exampleEnv alwaysA keepOrder) (exampleSample ''yes'') (zeroStats, []) of
      Inl e \<Rightarrow> False
    | Inr (r, st, sent) \<Rightarrow> CorrectAnswer r = ''A'' \<and> ModelAnswer r = ''A'' \<and> IsCorrect r)"
    by code_simp
  with correct_answer_from_label[of "exampleEnv alwaysA keepOrder" "exampleSample ''yes''" zeroStats "[]"]
  show ?thesis by blast
qed

subsection \<open>A failed call\<close>

lemma cleanAnswer_InvalidAns: "cleanAnswer InvalidAns = InvalidAns"
  by code_simp

lemma invocation_failed:
  assumes "invocation job p r" and "remote (fst job) p = Inl err"
  shows "ModelCompletion r = InvalidAns \<and> IsInvalid r \<and> \<not> IsCorrect r"
proof -
  from assms have mc: "ModelCompletion r = InvalidAns"
    by (simp add: invocation_def)
  with assms(1) have ma: "ModelAnswer r = InvalidAns"
    by (simp add: invocation_def cleanAnswer_InvalidAns)
  from assms(1) have "CorrectAnswer r = ''A'' \<or> CorrectAnswer r = ''B''"
    by (auto simp: invocation_def)
  with ma answers_differ have "ModelAnswer r \<noteq> CorrectAnswer r"
    by auto
  with assms(1) ma mc show ?thesis
    by (simp add: invocation_def)
qed

lemma filter_all: "\<forall>i<length xs. P (xs ! i) \<Longrightarrow> filter P xs = xs"
  by (simp add: filter_id_conv all_set_conv_all_nth)

lemma filter_none: "\<forall>i<length xs. \<not> P (xs ! i) \<Longrightarrow> filter P xs = []"
  by (simp add: filter_empty_conv all_set_conv_all_nth)

text \<open>
  Claim C4. In a run of any invocations from fresh counters, every invocation sends
  exactly one request (the list of requests has one entry per sample, the \<open>i\<close>-th being
  the prompt of the \<open>i\<close>-th invocation: a failed call is not repeated), and a result whose
  call returned an error has the invalid sentinel as its completion, is flagged invalid
  and is not flagged correct. When every call returns an error, \<open>invalid\<close> equals
  \<open>total\<close>, \<open>total\<close> is the number of samples and \<open>correct\<close> is \<open>0\<close>.
\<close>

theorem failed_call_invalid_and_not_retried:
  "\<exists>rs st sent. workerLoop jobs (zeroStats, []) = Inr (rs, st, sent)
     \<and> length rs = length jobs \<and> length sent = length jobs
     \<and> (\<forall>i<length jobs. buildPrompt (snd (jobs ! i)) NShot (shuffleTape (fst (jobs ! i))) = Inr (sent ! i))
     \<and> (\<forall>i<length jobs. (\<exists>err. remote (fst (jobs ! i)) (sent ! i) = Inl err) \<longrightarrow>
           ModelCompletion (rs ! i) = InvalidAns \<and> IsInvalid (rs ! i) \<and> \<not> IsCorrect (rs ! i))
     \<and> ((\<forall>i<length jobs. \<exists>err. remote (fst (jobs ! i)) (sent ! i) = Inl err) \<longrightarrow>
           invalid st = total st \<and> correct st = 0 \<and> total st = of_nat (length jobs))"
proof -
  obtain rs st ps where w:
    "workerLoop jobs (zeroStats, []) = Inr (rs, st, [] @ ps)"
    "list_all2 (\<lambda>job (p, r). invocation job p r) jobs (zip ps rs)"
    "length ps = length jobs" "length rs = length jobs"
    "total st = total zeroStats + of_nat (length rs)"
    "correct st = correct zeroStats + of_nat (length (filter IsCorrect rs))"
    "invalid st = invalid zeroStats + of_nat (length (filter IsInvalid rs))"
    using workerLoop_invocations[of jobs zeroStats "[]"] by blast
  have inv: "\<forall>i<length jobs. invocation (jobs ! i) (ps ! i) (rs ! i)"
    using w(2,3,4) by (simp add: list_all2_conv_all_nth)
  have prompts: "\<forall>i<length jobs. buildPrompt (snd (jobs ! i)) NShot (shuffleTape (fst (jobs ! i))) = Inr (ps ! i)"
    using inv by (simp add: invocation_def)
  have failed: "\<forall>i<length jobs. (\<exists>err. remote (fst (jobs ! i)) (ps ! i) = Inl err) \<longrightarrow>
           ModelCompletion (rs ! i) = InvalidAns \<and> IsInvalid (rs ! i) \<and> \<not> IsCorrect (rs ! i)"
    using inv invocation_failed by blast
  have allfail: "invalid st = total st \<and> correct st = 0 \<and> total st = of_nat (length jobs)"
    if all: "\<forall>i<length jobs. \<exists>err. remote (fst (jobs ! i)) (ps ! i) = Inl err"
  proof -
    from all failed have "\<forall>i<length rs. IsInvalid (rs ! i)" and "\<forall>i<length rs. \<not> IsCorrect (rs ! i)"
      using w(4) by auto
    then have "filter IsInvalid rs = rs" and "filter IsCorrect rs = []"
      by (simp_all add: filter_all filter_none)
    with w(4,5,6,7) show ?thesis
      by (simp add: zeroStats_def)
  qed
  have "workerLoop jobs (zeroStats, []) = Inr (rs, st, ps)"
    using w(1) by simp
  with w(3,4) prompts failed allfail show ?thesis
    by blast
qed

theorem failed_call_invalid_and_not_retried_witness:
  "(case workerLoop jobsFailing (zeroStats, []) of
      Inl e \<Rightarrow> False
    | Inr (rs, st, sent) \<Rightarrow>
        map ModelCompletion rs = [''[invalid]'', ''[invalid]''] \<and> map IsInvalid rs = [True, True]
        \<and> map IsCorrect rs = [False, False] \<and> length sent = 2
        \<and> map (remote (exampleEnv alwaysFails keepOrder)) sent = [Inl ''connection refused'', Inl ''connection refused'']
        \<and> total st = 2 \<and> invalid st = 2 \<and> correct st = 0)"
proof -
  have "(case workerLoop jobsFailing (zeroStats, []) of
      Inl e \<Rightarrow> False
    | Inr (rs, st, sent) \<Rightarrow>
        map ModelCompletion rs = [''[invalid]'', ''[invalid]''] \<and> map IsInvalid rs = [True, True]
        \<and> map IsCorrect rs = [False, False] \<and> length sent = 2
        \<and> map (remote (exampleEnv alwaysFails keepOrder)) sent = [Inl ''connection refused'', Inl ''connection refused'']
        \<and> total st = 2 \<and> invalid st = 2 \<and> correct st = 0)"
    by code_simp
  with failed_call_invalid_and_not_retried[of jobsFailing] show ?thesis by blast
qed

subsection \<open>Answer extraction\<close>

lemma isWordChar_AB: "isWordChar (CHR ''A'')" "isWordChar (CHR ''B'')"
  by (simp_all add: isWordChar_def)

lemma regexFind_prev_nonword:
  "\<not> isWordAt prev \<Longrightarrow> regexFind prev s = regexFind None s"
  by (cases s) (simp_all add: wordBoundary_def)

lemma regexFind_skip_nonword:
  "\<not> isWordChar c \<Longrightarrow> regexFind prev (c # s) = regexFind None s"
  using isWordChar_AB regexFind_prev_nonword[of "Some c" s] by auto

lemma regexFind_skip_prefix:
  "\<forall>c\<in>set p. \<not> isWordChar c \<Longrightarrow> regexFind None (p @ s) = regexFind None s"
  by (induction p) (simp_all add: regexFind_skip_nonword del: regexFind.simps)

lemma firstByte_append_nonword:
  "\<not> isWordChar c \<Longrightarrow> isWordAt (firstByte (s @ [c])) = isWordAt (firstByte s)"
  by (cases s) simp_all

lemma regexFind_drop_last_nonword:
  "\<not> isWordChar c \<Longrightarrow> regexFind prev (s @ [c]) = regexFind prev s"
proof (induction s arbitrary: prev)
  case Nil
  then show ?case using isWordChar_AB by auto
next
  case (Cons d s)
  then show ?case
    using firstByte_append_nonword[of c s] by (simp add: wordBoundary_def)
qed

lemma regexFind_drop_suffix:
  "\<forall>c\<in>set q. \<not> isWordChar c \<Longrightarrow> regexFind prev (s @ q) = regexFind prev s"
proof (induction q rule: rev_induct)
  case Nil
  then show ?case by simp
next
  case (snoc c q)
  have "regexFind prev (s @ q @ [c]) = regexFind prev ((s @ q) @ [c])" by simp
  also have "\<dots> = regexFind prev (s @ q)"
    using snoc.prems by (intro regexFind_drop_last_nonword) simp
  also have "\<dots> = regexFind prev s"
    using snoc by simp
  finally show ?case .
qed

lemma trimPrefixes_split:
  "\<exists>p. s = p @ trimPrefixes ws s \<and> set p \<subseteq> \<Union> (set ` set ws)"
proof (induction ws s rule: trimPrefixes.induct)
  case (1 ws s)
  show ?case
  proof (cases "find (startsWith s) ws")
    case None
    then have "trimPrefixes ws s = s" by simp
    then show ?thesis by simp
  next
    case (Some w)
    then have w: "w \<in> set ws" "take (length w) s = w"
      by (auto simp: find_Some_iff startsWith_def)
    from Some "1.IH"[of w] obtain p where
      p: "drop (length w) s = p @ trimPrefixes ws (drop (length w) s)" "set p \<subseteq> \<Union> (set ` set ws)"
      by blast
    have t: "trimPrefixes ws s = trimPrefixes ws (drop (length w) s)"
      using Some by simp
    have "s = w @ drop (length w) s"
      using w(2) by (metis append_take_drop_id)
    then have "s = (w @ p) @ trimPrefixes ws s"
      using p(1) t by simp
    moreover have "set (w @ p) \<subseteq> \<Union> (set ` set ws)"
      using w(1) p(2) by auto
    ultimately show ?thesis by blast
  qed
qed

lemma spaceRunes_nonword: "\<forall>w\<in>set spaceRunes. \<forall>c\<in>set w. \<not> isWordChar c"
proof -
  have "list_all (\<lambda>w. list_all (\<lambda>c. \<not> isWordChar c) w) spaceRunes"
    by code_simp
  then show ?thesis by (simp add: list_all_iff)
qed

lemma TrimSpace_split:
  "\<exists>p q. s = p @ TrimSpace s @ q \<and> (\<forall>c\<in>set p. \<not> isWordChar c) \<and> (\<forall>c\<in>set q. \<not> isWordChar c)"
proof -
  obtain p where p: "s = p @ trimPrefixes spaceRunes s" "set p \<subseteq> \<Union> (set ` set spaceRunes)"
    using trimPrefixes_split by blast
  define m where "m = trimPrefixes spaceRunes s"
  obtain q where q: "rev m = q @ trimPrefixes (map rev spaceRunes) (rev m)"
    "set q \<subseteq> \<Union> (set ` set (map rev spaceRunes))"
    using trimPrefixes_split by blast
  have "m = rev (rev m)" by simp
  also have "\<dots> = rev (trimPrefixes (map rev spaceRunes) (rev m)) @ rev q"
    using q(1) by (metis rev_append)
  finally have "m = TrimSpace s @ rev q"
    by (simp add: TrimSpace_def m_def)
  then have "s = p @ TrimSpace s @ rev q"
    using p(1) m_def by simp
  moreover have "\<forall>c\<in>set p. \<not> isWordChar c"
    using p(2) spaceRunes_nonword by blast
  moreover have "\<forall>c\<in>set (rev q). \<not> isWordChar c"
    using q(2) spaceRunes_nonword by auto
  ultimately show ?thesis by blast
qed

lemma regexFind_TrimSpace: "regexFind None (TrimSpace s) = regexFind None s"
proof -
  obtain p q where pq: "s = p @ TrimSpace s @ q"
    "\<forall>c\<in>set p. \<not> isWordChar c" "\<forall>c\<in>set q. \<not> isWordChar c"
    using TrimSpace_split by blast
  have "regexFind None s = regexFind None (p @ TrimSpace s @ q)"
    using pq(1) by simp
  also have "\<dots> = regexFind None (TrimSpace s @ q)"
    using pq(2) by (rule regexFind_skip_prefix)
  also have "\<dots> = regexFind None (TrimSpace s)"
    using pq(3) by (rule regexFind_drop_suffix)
  finally show ?thesis by simp
qed

lemma standaloneAt_here:
  "standaloneAt (pre @ c # cs) (length pre) =
     (wordBoundary (if pre = [] then None else Some (last pre)) (Some c) \<and> (c = CHR ''A'' \<or> c = CHR ''B'')
      \<and> wordBoundary (Some c) (firstByte cs))"
proof (cases "c = CHR ''A'' \<or> c = CHR ''B''")
  case False
  then show ?thesis by (simp add: standaloneAt_def)
next
  case True
  then have wc: "isWordChar c" using isWordChar_AB by auto
  have l: "pre \<noteq> [] \<Longrightarrow> (pre @ c # cs) ! (length pre - 1) = last pre"
    by (simp add: nth_append last_conv_nth)
  have r: "cs \<noteq> [] \<Longrightarrow> (pre @ c # cs) ! Suc (length pre) = hd cs"
    by (cases cs) (simp_all add: nth_append)
  have f: "isWordAt (firstByte cs) = (cs \<noteq> [] \<and> isWordChar (hd cs))"
    by (cases cs) simp_all
  show ?thesis
    using True wc l r f by (auto simp: standaloneAt_def wordBoundary_def)
qed

lemma regexFind_find:
  "regexFind (if pre = [] then None else Some (last pre)) s =
     (case find (standaloneAt (pre @ s)) [length pre..<length pre + length s] of
        None \<Rightarrow> []
      | Some i \<Rightarrow> [[(pre @ s) ! i], [(pre @ s) ! i]])"
proof (induction s arbitrary: pre)
  case Nil
  show ?case by simp
next
  case (Cons c cs)
  let ?P = "standaloneAt (pre @ c # cs)"
  let ?L = "[length (pre @ [c])..<length (pre @ [c]) + length cs]"
  have "length pre < length pre + length (c # cs)" by simp
  then have "[length pre..<length pre + length (c # cs)] =
      length pre # [Suc (length pre)..<length pre + length (c # cs)]"
    by (rule upt_conv_Cons)
  also have "[Suc (length pre)..<length pre + length (c # cs)] = ?L"
    by (simp del: upt_Suc)
  finally have fnd: "find ?P [length pre..<length pre + length (c # cs)] =
      (if ?P (length pre) then Some (length pre) else find ?P ?L)"
    by (simp only: find.simps)
  show ?case
  proof (cases "?P (length pre)")
    case True
    then have "regexFind (if pre = [] then None else Some (last pre)) (c # cs) = [[c], [c]]"
      using standaloneAt_here[of pre c cs] by simp
    moreover have "(pre @ c # cs) ! length pre = c" by simp
    ultimately show ?thesis
      unfolding fnd using True by (simp only: if_True option.case)
  next
    case False
    then have "regexFind (if pre = [] then None else Some (last pre)) (c # cs) = regexFind (Some c) cs"
      using standaloneAt_here[of pre c cs] by auto
    also have "\<dots> = regexFind (if pre @ [c] = [] then None else Some (last (pre @ [c]))) cs"
      by simp
    also have "\<dots> = (case find (standaloneAt ((pre @ [c]) @ cs)) ?L of
        None \<Rightarrow> []
      | Some i \<Rightarrow> [[((pre @ [c]) @ cs) ! i], [((pre @ [c]) @ cs) ! i]])"
      by (rule Cons.IH)
    also have "(pre @ [c]) @ cs = pre @ c # cs" by simp
    finally show ?thesis
      unfolding fnd using False by (simp only: if_False)
  qed
qed

lemma cleanAnswer_find:
  "cleanAnswer s =
     (case find (standaloneAt s) [0..<length s] of None \<Rightarrow> InvalidAns | Some i \<Rightarrow> [s ! i])"
proof -
  have "FindStringSubmatch (TrimSpace s) =
      (case find (standaloneAt s) [0..<length s] of None \<Rightarrow> [] | Some i \<Rightarrow> [[s ! i], [s ! i]])"
    unfolding FindStringSubmatch_def regexFind_TrimSpace
    using regexFind_find[of "[]" s] by (simp cong: option.case_cong)
  then show ?thesis
    by (simp add: cleanAnswer_def split: option.split)
qed

text \<open>
  Claim C3. For every completion text, either the text has a standalone \<open>A\<close> or \<open>B\<close> token,
  and \<open>cleanAnswer\<close> returns the letter at the first such position, wherever it is; or it
  has none, and \<open>cleanAnswer\<close> returns the invalid sentinel. (Standalone is meant as the
  pattern means it: bytes outside \<open>[0-9A-Za-z_]\<close>, among them every byte of a non-ASCII
  character, delimit a token.)
\<close>

theorem cleanAnswer_first_standalone_token:
  "(\<exists>i. standaloneAt s i \<and> (\<forall>j<i. \<not> standaloneAt s j) \<and> cleanAnswer s = [s ! i]
        \<and> (cleanAnswer s = ''A'' \<or> cleanAnswer s = ''B''))
   \<or> ((\<forall>i. \<not> standaloneAt s i) \<and> cleanAnswer s = InvalidAns)"
proof (cases "find (standaloneAt s) [0..<length s]")
  case None
  then have "\<forall>i<length s. \<not> standaloneAt s i"
    by (simp add: find_None_iff)
  then have "\<forall>i. \<not> standaloneAt s i"
    by (metis standaloneAt_def)
  with None show ?thesis
    by (simp add: cleanAnswer_find)
next
  case (Some i)
  then obtain k where k: "k < length [0..<length s]" "standaloneAt s ([0..<length s] ! k)"
    "i = [0..<length s] ! k" "\<forall>j<k. \<not> standaloneAt s ([0..<length s] ! j)"
    unfolding find_Some_iff by blast
  then have ik: "i = k" and il: "i < length s" by simp_all
  have first: "\<forall>j<i. \<not> standaloneAt s j"
    using k(4) ik il by simp
  have here: "standaloneAt s i" using k(2,3) by simp
  have ans: "cleanAnswer s = [s ! i]" using Some by (simp add: cleanAnswer_find)
  have "s ! i = CHR ''A'' \<or> s ! i = CHR ''B''" using here by (simp add: standaloneAt_def)
  with ans have "cleanAnswer s = ''A'' \<or> cleanAnswer s = ''B''" by auto
  with here first ans show ?thesis by blast
qed

theorem cleanAnswer_first_standalone_token_witness:
  "standaloneAt ''  So B, not A.'' 5 \<and> list_all (\<lambda>j. \<not> standaloneAt ''  So B, not A.'' j) [0..<5]
   \<and> cleanAnswer ''  So B, not A.'' = ''B''
   \<and> list_all (\<lambda>j. \<not> standaloneAt ''Both ABBA and abba'' j) [0..<18]
   \<and> cleanAnswer ''Both ABBA and abba'' = InvalidAns"
proof -
  have "standaloneAt ''  So B, not A.'' 5 \<and> list_all (\<lambda>j. \<not> standaloneAt ''  So B, not A.'' j) [0..<5]
   \<and> cleanAnswer ''  So B, not A.'' = ''B''
   \<and> list_all (\<lambda>j. \<not> standaloneAt ''Both ABBA and abba'' j) [0..<18]
   \<and> cleanAnswer ''Both ABBA and abba'' = InvalidAns"
    by code_simp
  with cleanAnswer_first_standalone_token[of "''  So B, not A.''"] show ?thesis by blast
qed

subsection \<open>The aggregator's accuracy excluding invalids\<close>

lemma fdiv_finite: "b \<noteq> 0 \<Longrightarrow> fdiv (Finite a) (Finite b) = Finite (a / b)"
  by simp

lemma countLoop_counts:
  "countLoop docs (t, c, i) =
     (t + int (length (filter (\<lambda>d. d \<noteq> None) docs)),
      c + int (length (filter (\<lambda>d. case d of None \<Rightarrow> False | Some r \<Rightarrow> IsCorrect r) docs)),
      i + int (length (filter (\<lambda>d. case d of None \<Rightarrow> False | Some r \<Rightarrow> IsInvalid r) docs)))"
proof (induction docs arbitrary: t c i)
  case Nil
  show ?case by simp
next
  case (Cons d docs)
  show ?case
  proof (cases d)
    case None
    then show ?thesis using Cons.IH by simp
  next
    case (Some r)
    then show ?thesis using Cons.IH by simp
  qed
qed

lemma invalid_le_decoded:
  "length (filter (\<lambda>d. case d of None \<Rightarrow> False | Some r \<Rightarrow> IsInvalid r) docs)
     \<le> length (filter (\<lambda>d. d \<noteq> None) docs)"
  by (induction docs) (auto split: option.splits)

text \<open>
  Claim C6. Whenever \<open>calculateAccuracy\<close> reports for a database (the query succeeded
  and at least one document decoded), \<open>total\<close>, \<open>correct\<close> and \<open>invalid\<close> are the numbers
  of decoded documents, of those flagged correct and of those flagged invalid, and the
  accuracy excluding invalids is \<open>0\<close> when \<open>total - invalid\<close> is \<open>0\<close> and
  \<open>correct / (total - invalid) * 100\<close> otherwise (as a real number: the rounding of
  \<open>float64\<close> is not modelled).
\<close>

theorem accuracy_excluding_invalids:
  assumes "calculateAccuracy dbName cursor = Some m"
  shows "\<exists>docs. cursor = Some docs
     \<and> TotalSamples m = int (length (filter (\<lambda>d. d \<noteq> None) docs))
     \<and> CorrectAnswers m = int (length (filter (\<lambda>d. case d of None \<Rightarrow> False | Some r \<Rightarrow> IsCorrect r) docs))
     \<and> InvalidAnswers' m = int (length (filter (\<lambda>d. case d of None \<Rightarrow> False | Some r \<Rightarrow> IsInvalid r) docs))
     \<and> AccuracyExcludingInvalids m =
         (if TotalSamples m - InvalidAnswers' m = 0 then Finite 0
          else Finite (real_of_int (CorrectAnswers m) / real_of_int (TotalSamples m - InvalidAnswers' m) * 100))"
proof -
  from assms obtain docs where docs: "cursor = Some docs"
    by (cases cursor) (simp_all add: calculateAccuracy_def)
  define t where "t = int (length (filter (\<lambda>d. d \<noteq> None) docs))"
  define c where "c = int (length (filter (\<lambda>d. case d of None \<Rightarrow> False | Some r \<Rightarrow> IsCorrect r) docs))"
  define i where "i = int (length (filter (\<lambda>d. case d of None \<Rightarrow> False | Some r \<Rightarrow> IsInvalid r) docs))"
  have cl: "countLoop docs (0, 0, 0) = (t, c, i)"
    by (simp add: countLoop_counts t_def c_def i_def)
  have le: "i \<le> t"
    using invalid_le_decoded[of docs] by (simp add: t_def i_def)
  have eq: "calculateAccuracy dbName (Some docs) =
      (if t = 0 then None
       else Some \<lparr>Database = dbName, TotalSamples = t, CorrectAnswers = c, InvalidAnswers' = i,
              OverallAccuracy = fmul (fdiv (Finite (real_of_int c)) (Finite (real_of_int t))) (Finite 100),
              AccuracyExcludingInvalids =
                (if t - i > 0
                 then fmul (fdiv (Finite (real_of_int c)) (Finite (real_of_int (t - i)))) (Finite 100)
                 else Finite 0)\<rparr>)"
    by (simp only: calculateAccuracy_def cl option.case prod.case Let_def)
  have t0: "t \<noteq> 0"
  proof
    assume "t = 0"
    with eq have "calculateAccuracy dbName (Some docs) = None" by (simp only: if_True simp_thms)
    with assms docs show False by simp
  qed
  with eq assms docs have m: "m = \<lparr>Database = dbName, TotalSamples = t, CorrectAnswers = c, InvalidAnswers' = i,
              OverallAccuracy = fmul (fdiv (Finite (real_of_int c)) (Finite (real_of_int t))) (Finite 100),
              AccuracyExcludingInvalids =
                (if t - i > 0
                 then fmul (fdiv (Finite (real_of_int c)) (Finite (real_of_int (t - i)))) (Finite 100)
                 else Finite 0)\<rparr>"
    by (simp only: if_False option.inject simp_thms)
  have mt: "TotalSamples m = t" and mc: "CorrectAnswers m = c" and mi: "InvalidAnswers' m = i"
    and ma: "AccuracyExcludingInvalids m =
       (if t - i > 0 then fmul (fdiv (Finite (real_of_int c)) (Finite (real_of_int (t - i)))) (Finite 100)
        else Finite 0)"
    unfolding m by (simp_all only: Metadata.select_convs)
  have acc: "AccuracyExcludingInvalids m =
      (if t - i = 0 then Finite 0 else Finite (real_of_int c / real_of_int (t - i) * 100))"
  proof (cases "t - i = 0")
    case True
    then have "\<not> t - i > 0" by simp
    then have "AccuracyExcludingInvalids m = Finite 0"
      unfolding ma by (rule if_not_P)
    with True show ?thesis by (simp only: if_True simp_thms)
  next
    case False
    with le have pos: "t - i > 0" by simp
    then have nz: "real_of_int (t - i) \<noteq> 0" by simp
    have "AccuracyExcludingInvalids m =
        fmul (fdiv (Finite (real_of_int c)) (Finite (real_of_int (t - i)))) (Finite 100)"
      unfolding ma using pos by (rule if_P)
    also have "\<dots> = Finite (real_of_int c / real_of_int (t - i) * 100)"
      by (simp only: fdiv_finite[OF nz] fmul.simps)
    finally show ?thesis using False by (simp only: if_False)
  qed
  show ?thesis
  proof (intro exI[of _ docs] conjI)
    show "cursor = Some docs" by (rule docs)
    show "TotalSamples m = int (length (filter (\<lambda>d. d \<noteq> None) docs))"
      using mt by (simp only: t_def)
    show "CorrectAnswers m = int (length (filter (\<lambda>d. case d of None \<Rightarrow> False | Some r \<Rightarrow> IsCorrect r) docs))"
      using mc by (simp only: c_def)
    show "InvalidAnswers' m = int (length (filter (\<lambda>d. case d of None \<Rightarrow> False | Some r \<Rightarrow> IsInvalid r) docs))"
      using mi by (simp only: i_def)
    show "AccuracyExcludingInvalids m =
         (if TotalSamples m - InvalidAnswers' m = 0 then Finite 0
          else Finite (real_of_int (CorrectAnswers m) / real_of_int (TotalSamples m - InvalidAnswers' m) * 100))"
      using acc by (simp only: mt mc mi)
  qed
qed

theorem accuracy_excluding_invalids_witness:
  "calculateAccuracy ''tree_evaluation_db''
      (Some [Some (exampleResult True False), None, Some (exampleResult False True),
             Some (exampleResult False False)])
     = Some \<lparr>Database = ''tree_evaluation_db'', TotalSamples = 3, CorrectAnswers = 1,
              InvalidAnswers' = 1, OverallAccuracy = Finite (100 / 3),
              AccuracyExcludingInvalids = Finite 50\<rparr>
   \<and> map_option AccuracyExcludingInvalids
        (calculateAccuracy ''tree_evaluation_db'' (Some [Some (exampleResult False True)]))
     = Some (Finite 0)"
proof -
  have a: "calculateAccuracy ''tree_evaluation_db''
      (Some [Some (exampleResult True False), None, Some (exampleResult False True),
             Some (exampleResult False False)])
     = Some \<lparr>Database = ''tree_evaluation_db'', TotalSamples = 3, CorrectAnswers = 1,
              InvalidAnswers' = 1, OverallAccuracy = Finite (100 / 3),
              AccuracyExcludingInvalids = Finite 50\<rparr>"
    by code_simp
  have b: "map_option AccuracyExcludingInvalids
        (calculateAccuracy ''tree_evaluation_db'' (Some [Some (exampleResult False True)]))
     = Some (Finite 0)"
    by code_simp
  from accuracy_excluding_invalids[OF a] a b show ?thesis by blast
qed

subsection \<open>The accuracy of a progress snapshot\<close>

lemma tick_accuracy_nonzero_total:
  assumes "sint (total st) \<noteq> 0"
  shows "Accuracy (tickSnapshot now st) =
     Finite (real_of_int (sint (correct st)) / real_of_int (sint (total st)) * 100)"
proof -
  have nz: "real_of_int (sint (total st)) \<noteq> 0"
    using assms by (simp only: of_int_eq_0_iff not_False_eq_True)
  have "Accuracy (tickSnapshot now st) =
      fmul (fdiv (Finite (real_of_int (sint (correct st)))) (Finite (real_of_int (sint (total st))))) (Finite 100)"
    by (simp only: tickSnapshot_def Let_def ofInt32_def LogEntry.select_convs)
  also have "\<dots> = Finite (real_of_int (sint (correct st)) / real_of_int (sint (total st)) * 100)"
    by (simp only: fdiv_finite[OF nz] fmul.simps)
  finally show ?thesis .
qed

text \<open>
  Claim C5 (the code departs from it). On a tick the accuracy is \<open>correct / total * 100\<close>
  when \<open>total\<close> is not \<open>0\<close> (lemma \<open>tick_accuracy_nonzero_total\<close>). On a tick that finds
  \<open>total = 0\<close>, as the first tick does when no call has returned yet, the source divides
  zero by zero: the snapshot's accuracy is not-a-number, and not the \<open>0\<close> of the claim.
\<close>

theorem tick_accuracy_nan_at_zero_total:
  "Accuracy (tickSnapshot ''2025-03-21T10:00:05Z'' zeroStats) = NaN
   \<and> Accuracy (tickSnapshot ''2025-03-21T10:00:05Z'' zeroStats) \<noteq> Finite 0
   \<and> TotalQuestions (tickSnapshot ''2025-03-21T10:00:05Z'' zeroStats) = 0"
  by (simp add: tickSnapshot_def zeroStats_def ofInt32_def)

subsection \<open>The cumulative processing time under interleaving\<close>

lemma statsUpdate_not_all_atomic:
  "filter (\<lambda>opn. case opn of AtomicAddInt32 k n \<Rightarrow> False | _ \<Rightarrow> True) (statsUpdate c i d)
     = [LoadTotalTime, AddStoreTotalTime d]"
  by (simp add: statsUpdate_def)

text \<open>
  Claim C8 (the code departs from it). \<open>total\<close>, \<open>correct\<close> and \<open>invalid\<close> are updated by
  \<open>atomic.AddInt32\<close> only, but the cumulative processing time is updated by a plain read
  followed by a plain write (lemma \<open>statsUpdate_not_all_atomic\<close>). Two workers that
  finish a sample each, after 2 and after 3 seconds, interleaved so that both read the
  field before either writes it, leave \<open>totalTime = 2\<close> with \<open>total = 2\<close>: one update is
  lost. Run one after the other, they leave \<open>totalTime = 5\<close>.
\<close>

theorem totalTime_update_lost_under_interleaving:
  "fst (interleave [0, 0, 1, 1, 1, 0]
          (zeroStats, [(statsUpdate False False 2, 0), (statsUpdate False False 3, 0)]))
     = \<lparr>total = 2, correct = 0, invalid = 0, totalTime = 2\<rparr>
   \<and> fst (interleave [0, 0, 0, 1, 1, 1]
          (zeroStats, [(statsUpdate False False 2, 0), (statsUpdate False False 3, 0)]))
     = \<lparr>total = 2, correct = 0, invalid = 0, totalTime = 5\<rparr>"
  by (simp add: statsUpdate_def zeroStats_def)

subsection \<open>The header row and absent columns\<close>

lemma colMap_snoc: "colMap (xs @ [x]) = (colMap xs)(x \<mapsto> length xs)"
proof -
  have "fold (\<lambda>i m. m((xs @ [x]) ! i \<mapsto> i)) [0..<length xs] Map.empty
      = fold (\<lambda>i m. m(xs ! i \<mapsto> i)) [0..<length xs] Map.empty"
    by (rule fold_cong) (auto simp: nth_append)
  then show ?thesis by (simp add: colMap_def)
qed

lemma colMap_lookup:
  "(name \<notin> set header \<longrightarrow> colMap header name = None)
   \<and> (name \<in> set header \<longrightarrow> (\<exists>i<length header. colMap header name = Some i \<and> header ! i = name))"
proof (induction header rule: rev_induct)
  case Nil
  show ?case by (simp add: colMap_def)
next
  case (snoc x xs)
  show ?case
  proof (cases "x = name")
    case True
    then have "colMap (xs @ [x]) name = Some (length xs)" "(xs @ [x]) ! length xs = name"
      by (simp_all add: colMap_snoc)
    then show ?thesis using True by auto
  next
    case False
    then have same: "colMap (xs @ [x]) name = colMap xs name"
      by (simp add: colMap_snoc)
    show ?thesis
    proof (cases "name \<in> set xs")
      case True
      with snoc obtain i where "i < length xs" "colMap xs name = Some i" "xs ! i = name"
        by blast
      then have "i < length (xs @ [x])" "colMap (xs @ [x]) name = Some i" "(xs @ [x]) ! i = name"
        using same by (simp_all add: nth_append)
      then show ?thesis using True by auto
    next
      case False
      with snoc have "colMap xs name = None" by blast
      with same False \<open>x \<noteq> name\<close> show ?thesis by simp
    qed
  qed
qed

lemma colIndex_absent: "name \<notin> set header \<Longrightarrow> colIndex (colMap header) name = 0"
  using colMap_lookup[of name header] by (simp add: colIndex_def)

lemma colIndex_present:
  "name \<in> set header \<Longrightarrow>
     colIndex (colMap header) name < length header \<and> header ! colIndex (colMap header) name = name"
  using colMap_lookup[of name header] by (auto simp: colIndex_def)

lemma colIndex_in_range: "header \<noteq> [] \<Longrightarrow> colIndex (colMap header) name < length header"
  using colIndex_absent[of name header] colIndex_present[of name header]
  by (cases "name \<in> set header") auto

lemma readRecords_length: "r \<in> set (readRecords n rows) \<Longrightarrow> length r = n"
proof (induction n rows rule: readRecords.induct)
  case (1 n)
  then show ?case by simp
next
  case (2 n rest)
  then show ?case by simp
next
  case (3 n r' rest)
  then show ?case by (auto split: if_splits)
qed

lemma mkSample_in_range:
  assumes "\<forall>name. colIndex m name < length r"
  shows "mkSample m r =
     Inr \<lparr>Premise = r ! colIndex m ''premise'', Choice1 = r ! colIndex m ''choice1'',
          Choice2 = r ! colIndex m ''choice2'', Question = r ! colIndex m ''question'',
          Label = r ! colIndex m ''label''\<rparr>"
  using assms by (simp add: mkSample_def fieldAt_def)

lemma sendLoop_in_range:
  assumes "\<forall>r\<in>set recs. \<forall>name. colIndex m name < length r"
  shows "sendLoop m recs acc =
     Finished (acc @ map (\<lambda>r. \<lparr>Premise = r ! colIndex m ''premise'', Choice1 = r ! colIndex m ''choice1'',
          Choice2 = r ! colIndex m ''choice2'', Question = r ! colIndex m ''question'',
          Label = r ! colIndex m ''label''\<rparr>) recs)"
  using assms
proof (induction recs arbitrary: acc)
  case Nil
  show ?case by simp
next
  case (Cons r recs)
  then have "mkSample m r =
     Inr \<lparr>Premise = r ! colIndex m ''premise'', Choice1 = r ! colIndex m ''choice1'',
          Choice2 = r ! colIndex m ''choice2'', Question = r ! colIndex m ''question'',
          Label = r ! colIndex m ''label''\<rparr>"
    by (intro mkSample_in_range) simp
  then show ?case using Cons by simp
qed

lemma sendLoop_not_fatal: "sendLoop m recs acc \<noteq> Fatal f"
  by (induction recs arbitrary: acc) (auto split: sum.splits)

text \<open>The run is aborted exactly when the file does not open or its header row is not read.\<close>

lemma loadSamples_fatal_iff:
  "(\<exists>f. loadSamples ds = Fatal f) =
     (ds = None \<or> ds = Some [] \<or> (\<exists>rows. ds = Some (SyntaxError # rows)))"
proof (cases ds)
  case None
  then show ?thesis by simp
next
  case (Some all)
  show ?thesis
  proof (cases all)
    case Nil
    with Some show ?thesis by simp
  next
    case (Cons row rows)
    with Some show ?thesis
      by (cases row) (simp_all add: sendLoop_not_fatal)
  qed
qed

text \<open>
  Claim C2, as amended. A header row that was read never makes the source fail, whatever
  names it holds: a name absent from it resolves to position \<open>0\<close>, a name present in it to
  a position that holds it, and every record the reader yields before its first error
  becomes a sample and is sent, its field for an absent column being the record's first
  field. (The csv reader yields no empty row, hence the premise.)
\<close>

theorem absent_column_resolves_to_first_field:
  assumes "header \<noteq> []"
  shows "loadSamples (Some (Row header # rows)) =
       Finished (map (\<lambda>r. \<lparr>Premise = r ! colIndex (colMap header) ''premise'',
                             Choice1 = r ! colIndex (colMap header) ''choice1'',
                             Choice2 = r ! colIndex (colMap header) ''choice2'',
                             Question = r ! colIndex (colMap header) ''question'',
                             Label = r ! colIndex (colMap header) ''label''\<rparr>)
                     (readRecords (length header) rows))
     \<and> (\<forall>name. name \<notin> set header \<longrightarrow> colIndex (colMap header) name = 0)
     \<and> (\<forall>name. name \<in> set header \<longrightarrow> header ! colIndex (colMap header) name = name)"
proof -
  have "\<forall>r\<in>set (readRecords (length header) rows). \<forall>name. colIndex (colMap header) name < length r"
    using assms by (simp add: readRecords_length colIndex_in_range)
  then have "sendLoop (colMap header) (readRecords (length header) rows) [] =
       Finished ([] @ map (\<lambda>r. \<lparr>Premise = r ! colIndex (colMap header) ''premise'',
                             Choice1 = r ! colIndex (colMap header) ''choice1'',
                             Choice2 = r ! colIndex (colMap header) ''choice2'',
                             Question = r ! colIndex (colMap header) ''question'',
                             Label = r ! colIndex (colMap header) ''label''\<rparr>)
                     (readRecords (length header) rows))"
    by (rule sendLoop_in_range)
  then show ?thesis
    using colIndex_absent colIndex_present by simp
qed

theorem absent_column_resolves_to_first_field_witness:
  "[''choice1'', ''choice2'', ''question'', ''label''] \<noteq> []
   \<and> loadSamples (Some [Row [''choice1'', ''choice2'', ''question'', ''label''],
                         Row [''water the plant'', ''cut down a tree'', ''effect'', ''0''],
                         Row [''too'', ''short''],
                         Row [''never'', ''read'', ''effect'', ''1'']])
       = Finished [\<lparr>Premise = ''water the plant'', Choice1 = ''water the plant'',
                     Choice2 = ''cut down a tree'', Question = ''effect'', Label = ''0''\<rparr>]
   \<and> colIndex (colMap [''choice1'', ''choice2'', ''question'', ''label'']) ''premise'' = 0"
proof -
  have h: "[''choice1'', ''choice2'', ''question'', ''label''] \<noteq> []" by simp
  have "loadSamples (Some [Row [''choice1'', ''choice2'', ''question'', ''label''],
                         Row [''water the plant'', ''cut down a tree'', ''effect'', ''0''],
                         Row [''too'', ''short''],
                         Row [''never'', ''read'', ''effect'', ''1'']])
       = Finished [\<lparr>Premise = ''water the plant'', Choice1 = ''water the plant'',
                     Choice2 = ''cut down a tree'', Question = ''effect'', Label = ''0''\<rparr>]
   \<and> colIndex (colMap [''choice1'', ''choice2'', ''question'', ''label'']) ''premise'' = 0"
    by code_simp
  with h absent_column_resolves_to_first_field[OF h] show ?thesis by blast
qed

text \<open>
  Claim C2 as stated fails: with \<open>premise\<close> absent from the header the source ends
  normally, having sent the record with its first field as the premise.
\<close>

theorem absent_column_not_fatal_counterexample:
  "''premise'' \<in> set requiredColumns
   \<and> ''premise'' \<notin> set [''choice1'', ''choice2'', ''question'', ''label'']
   \<and> loadSamples (Some [Row [''choice1'', ''choice2'', ''question'', ''label''],
                         Row [''water the plant'', ''cut down a tree'', ''effect'', ''0'']])
       = Finished [\<lparr>Premise = ''water the plant'', Choice1 = ''water the plant'',
                     Choice2 = ''cut down a tree'', Question = ''effect'', Label = ''0''\<rparr>]"
  by code_simp

subsection \<open>Two runs over the same dataset\<close>

lemma invocation_same_reply:
  assumes "invocation (e, s) p r" and "invocation (e', s) p' r'" and "remote e p = remote e' p'"
  shows "IsCorrect r = IsCorrect r' \<and> IsInvalid r = IsInvalid r'"
  using assms by (simp add: invocation_def)

lemma length_filter_related:
  "list_all2 (\<lambda>x y. P x = P y) xs ys \<Longrightarrow> length (filter P xs) = length (filter P ys)"
  by (induction rule: list_all2_induct) simp_all

lemma length_filter_pointwise:
  assumes "length xs = length ys" and "\<forall>i<length xs. P (xs ! i) = P (ys ! i)"
  shows "length (filter P xs) = length (filter P ys)"
  using assms by (intro length_filter_related) (simp add: list_all2_conv_all_nth)

lemma workerLoop_same_counts:
  assumes l1: "length envs1 = length samples" and l2: "length envs2 = length samples"
    and api: "\<forall>e\<in>set envs1 \<union> set envs2. remote e = api"
    and ind: "\<forall>s\<in>set samples. \<forall>t1 t2 p1 p2.
           buildPrompt s NShot t1 = Inr p1 \<longrightarrow> buildPrompt s NShot t2 = Inr p2 \<longrightarrow> api p1 = api p2"
  shows "\<exists>c. finalCounts (zip envs1 samples) = Some c \<and> finalCounts (zip envs2 samples) = Some c"
proof -
  obtain rs1 st1 ps1 where w1:
    "workerLoop (zip envs1 samples) (zeroStats, []) = Inr (rs1, st1, [] @ ps1)"
    "list_all2 (\<lambda>job (p, r). invocation job p r) (zip envs1 samples) (zip ps1 rs1)"
    "length ps1 = length (zip envs1 samples)" "length rs1 = length (zip envs1 samples)"
    "total st1 = total zeroStats + of_nat (length rs1)"
    "correct st1 = correct zeroStats + of_nat (length (filter IsCorrect rs1))"
    "invalid st1 = invalid zeroStats + of_nat (length (filter IsInvalid rs1))"
    using workerLoop_invocations[of "zip envs1 samples" zeroStats "[]"] by blast
  obtain rs2 st2 ps2 where w2:
    "workerLoop (zip envs2 samples) (zeroStats, []) = Inr (rs2, st2, [] @ ps2)"
    "list_all2 (\<lambda>job (p, r). invocation job p r) (zip envs2 samples) (zip ps2 rs2)"
    "length ps2 = length (zip envs2 samples)" "length rs2 = length (zip envs2 samples)"
    "total st2 = total zeroStats + of_nat (length rs2)"
    "correct st2 = correct zeroStats + of_nat (length (filter IsCorrect rs2))"
    "invalid st2 = invalid zeroStats + of_nat (length (filter IsInvalid rs2))"
    using workerLoop_invocations[of "zip envs2 samples" zeroStats "[]"] by blast
  have len: "length rs1 = length samples" "length rs2 = length samples"
    "length ps1 = length samples" "length ps2 = length samples"
    using w1(3,4) w2(3,4) l1 l2 by simp_all
  have flags: "IsCorrect (rs1 ! i) = IsCorrect (rs2 ! i) \<and> IsInvalid (rs1 ! i) = IsInvalid (rs2 ! i)"
    if i: "i < length samples" for i
  proof -
    have i1: "invocation (envs1 ! i, samples ! i) (ps1 ! i) (rs1 ! i)"
      using w1(2) i l1 len by (simp add: list_all2_conv_all_nth)
    have i2: "invocation (envs2 ! i, samples ! i) (ps2 ! i) (rs2 ! i)"
      using w2(2) i l2 len by (simp add: list_all2_conv_all_nth)
    have r1: "remote (envs1 ! i) = api" and r2: "remote (envs2 ! i) = api"
      using api i l1 l2 by simp_all
    have "samples ! i \<in> set samples" using i by simp
    moreover have "buildPrompt (samples ! i) NShot (shuffleTape (envs1 ! i)) = Inr (ps1 ! i)"
      using i1 by (simp add: invocation_def)
    moreover have "buildPrompt (samples ! i) NShot (shuffleTape (envs2 ! i)) = Inr (ps2 ! i)"
      using i2 by (simp add: invocation_def)
    ultimately have "api (ps1 ! i) = api (ps2 ! i)"
      using ind by blast
    then have "remote (envs1 ! i) (ps1 ! i) = remote (envs2 ! i) (ps2 ! i)"
      using r1 r2 by simp
    with i1 i2 show ?thesis by (rule invocation_same_reply)
  qed
  have c: "length (filter IsCorrect rs1) = length (filter IsCorrect rs2)"
    using len flags by (intro length_filter_pointwise) simp_all
  have v: "length (filter IsInvalid rs1) = length (filter IsInvalid rs2)"
    using len flags by (intro length_filter_pointwise) simp_all
  have "total st1 = total st2" "correct st1 = correct st2" "invalid st1 = invalid st2"
    using w1(5,6,7) w2(5,6,7) len c v by simp_all
  then show ?thesis
    using w1(1) w2(1) by (simp add: finalCounts_def)
qed

text \<open>
  Claim C9, as amended. Two runs over the same dataset with the same deterministic
  collaborator end with the same \<open>total\<close>, \<open>correct\<close> and \<open>invalid\<close>, whatever their
  shuffles, provided the collaborator's reply to a sample's prompt is the same for every
  order of the exemplars in it.
\<close>

theorem counts_same_when_reply_ignores_exemplar_order:
  assumes "length envs1 = length samples" and "length envs2 = length samples"
    and "\<forall>e\<in>set envs1 \<union> set envs2. remote e = api"
    and "\<forall>s\<in>set samples. \<forall>t1 t2 p1 p2.
           buildPrompt s NShot t1 = Inr p1 \<longrightarrow> buildPrompt s NShot t2 = Inr p2 \<longrightarrow> api p1 = api p2"
  shows "finalCounts (zip envs1 samples) = finalCounts (zip envs2 samples)
     \<and> finalCounts (zip envs1 samples) \<noteq> None"
  using workerLoop_same_counts[OF assms] by auto

theorem counts_same_when_reply_ignores_exemplar_order_witness:
  "finalCounts (zip [exampleEnv alwaysA keepOrder, exampleEnv alwaysA keepOrder, exampleEnv alwaysA keepOrder] samples3)
     = Some (3, 2, 0)
   \<and> finalCounts (zip [exampleEnv alwaysA alwaysZero, exampleEnv alwaysA keepOrder, exampleEnv alwaysA alwaysZero] samples3)
     = Some (3, 2, 0)"
proof -
  let ?e1 = "[exampleEnv alwaysA keepOrder, exampleEnv alwaysA keepOrder, exampleEnv alwaysA keepOrder]"
  let ?e2 = "[exampleEnv alwaysA alwaysZero, exampleEnv alwaysA keepOrder, exampleEnv alwaysA alwaysZero]"
  have a: "length ?e1 = length samples3" and b: "length ?e2 = length samples3"
    by (simp_all add: samples3_def)
  have c: "\<forall>e\<in>set ?e1 \<union> set ?e2. remote e = alwaysA"
    by (simp add: exampleEnv_def)
  have d: "\<forall>s\<in>set samples3. \<forall>t1 t2 p1 p2.
           buildPrompt s NShot t1 = Inr p1 \<longrightarrow> buildPrompt s NShot t2 = Inr p2 \<longrightarrow> alwaysA p1 = alwaysA p2"
    by (simp add: alwaysA_def)
  have e: "finalCounts (zip ?e1 samples3) = Some (3, 2, 0)"
    by code_simp
  from counts_same_when_reply_ignores_exemplar_order[OF a b c d] e show ?thesis
    by simp
qed

text \<open>
  Claim C9 as stated fails: the same dataset of one sample and the same deterministic
  collaborator, which answers by the first exemplar of its prompt, give \<open>correct = 1\<close> in
  a run whose shuffle keeps the exemplars in order and \<open>correct = 0\<close> in a run whose
  shuffle does not.
\<close>

theorem counts_differ_counterexample:
  "finalCounts [(exampleEnv firstExemplarStub keepOrder, exampleSample ''0'')] = Some (1, 1, 0)
   \<and> finalCounts [(exampleEnv firstExemplarStub alwaysZero, exampleSample ''0'')] = Some (1, 0, 0)"
  by code_simp

subsection \<open>The order of shutdown\<close>

lemma reachableInv_initial: "reachableInv (initial samples)"
  by (simp add: reachableInv_def initial_def list_all_iff)

lemma list_all_update_not_exited:
  "list_all (\<lambda>w. w \<noteq> Exited) ws \<Longrightarrow> v \<noteq> Exited \<Longrightarrow> list_all (\<lambda>w. w \<noteq> Exited) (ws[i := v])"
  by (auto simp: list_all_iff dest: set_update_subset_insert[THEN subsetD])

lemma not_all_exited:
  "i < length ws \<Longrightarrow> ws ! i \<noteq> Exited \<Longrightarrow> \<not> list_all (\<lambda>w. w = Exited) ws"
  by (auto simp: list_all_iff)

lemma reachableInv_step:
  assumes "reachableInv s" and "step e s = Some s'"
  shows "reachableInv s'"
proof (cases e)
  case LoaderSend
  with assms show ?thesis
    by (auto simp: reachableInv_def split: list.splits if_splits)
next
  case LoaderClose
  with assms show ?thesis
    by (auto simp: reachableInv_def split: if_splits)
next
  case (WorkerTake i env)
  with assms(2) obtain sample rest result st' sent' where t:
    "i < length (workers s)" "workers s ! i = Receiving" "samplesChan s = sample # rest"
    "s' = s\<lparr>samplesChan := rest, workers := (workers s)[i := Sending result],
            stats := st', requests := sent'\<rparr>"
    by (auto split: if_splits list.splits sum.splits prod.splits)
  from t(1,2) have w: "pc s = AtWait"
    using assms(1) not_all_exited[of i "workers s"] by (auto simp: reachableInv_def)
  from t(3) assms(1) have n: "list_all (\<lambda>w. w \<noteq> Exited) (workers s)"
    by (auto simp: reachableInv_def)
  then have "list_all (\<lambda>w. w \<noteq> Exited) ((workers s)[i := Sending result])"
    by (rule list_all_update_not_exited) simp
  with assms(1) w t(4) show ?thesis
    by (simp add: reachableInv_def)
next
  case (WorkerSend i)
  with assms(2) obtain result where t:
    "i < length (workers s)" "workers s ! i = Sending result"
    "s' = s\<lparr>resultsChan := resultsChan s @ [result], workers := (workers s)[i := Receiving]\<rparr>"
    by (auto split: if_splits wstate.splits)
  from t(1,2) have w: "pc s = AtWait"
    using assms(1) not_all_exited[of i "workers s"] by (auto simp: reachableInv_def)
  have "list_all (\<lambda>w. w \<noteq> Exited) (workers s) \<Longrightarrow>
      list_all (\<lambda>w. w \<noteq> Exited) ((workers s)[i := Receiving])"
    by (rule list_all_update_not_exited) simp_all
  with assms(1) w t(3) show ?thesis
    by (auto simp: reachableInv_def)
next
  case (WorkerExit i)
  with assms(2) have t:
    "i < length (workers s)" "workers s ! i = Receiving" "samplesChan s = []" "samplesClosed s"
    "s' = s\<lparr>workers := (workers s)[i := Exited]\<rparr>"
    by (auto split: if_splits)
  from t(1,2) have w: "pc s = AtWait"
    using assms(1) not_all_exited[of i "workers s"] by (auto simp: reachableInv_def)
  with assms(1) t(3,4,5) show ?thesis
    by (simp add: reachableInv_def)
next
  case CollectorRecv
  with assms show ?thesis
    by (auto simp: reachableInv_def Let_def split: list.splits if_splits)
next
  case (CollectorTick now)
  with assms show ?thesis
    by (auto simp: reachableInv_def split: if_splits)
next
  case CollectorStop
  with assms show ?thesis
    by (auto simp: reachableInv_def split: if_splits)
next
  case MainWaitReturns
  with assms show ?thesis
    by (auto simp: reachableInv_def split: if_splits)
next
  case MainCloseResults
  with assms show ?thesis
    by (auto simp: reachableInv_def split: if_splits)
next
  case (MainFinalLog now elapsed)
  with assms show ?thesis
    by (auto simp: reachableInv_def split: if_splits)
qed

lemma reachableInv_run:
  "reachableInv s \<Longrightarrow> run evs s = Some s' \<Longrightarrow> reachableInv s'"
proof (induction evs arbitrary: s)
  case Nil
  then show ?case by simp
next
  case (Cons e evs)
  then obtain s1 where "step e s = Some s1" "run evs s1 = Some s'"
    by (auto split: option.splits)
  with Cons show ?case
    using reachableInv_step by blast
qed

text \<open>
  Claim C7, as amended. In every state the pipeline can reach in which \<open>main\<close> has
  written the final snapshot, every worker has left its loop, the loader has sent every
  record and closed the intake queue, the intake queue is empty, and the output queue
  has been closed. (Nothing is said of the collector: see the counterexample.)
\<close>

theorem final_snapshot_after_workers_exit_and_close:
  assumes "run evs (initial samples) = Some s" and "pc s = AfterFinal"
  shows "list_all (\<lambda>w. w = Exited) (workers s) \<and> resultsClosed s
     \<and> pending s = [] \<and> samplesClosed s \<and> samplesChan s = []"
proof -
  have inv: "reachableInv s"
    using reachableInv_initial assms(1) by (rule reachableInv_run)
  with assms(2) have ex: "list_all (\<lambda>w. w = Exited) (workers s)" and rc: "resultsClosed s"
    by (auto simp: reachableInv_def)
  from inv have "length (workers s) = WorkerCount"
    by (simp add: reachableInv_def)
  then have "workers s \<noteq> []"
    by (auto simp: WorkerCount_def)
  with ex have "\<not> list_all (\<lambda>w. w \<noteq> Exited) (workers s)"
    by (cases "workers s") simp_all
  with inv have "samplesClosed s \<and> samplesChan s = [] \<and> pending s = []"
    by (auto simp: reachableInv_def)
  with ex rc show ?thesis by simp
qed

lemma orderly_run:
  "(case run orderlyShutdown (initial [exampleSample ''0'']) of
      None \<Rightarrow> False
    | Some s \<Rightarrow> pc s = AfterFinal \<and> collector s = Closed \<and> resultsClosed s
        \<and> list_all (\<lambda>w. w = Exited) (workers s)
        \<and> map IsCorrect (resultsColl s) = [True] \<and> map TotalQuestions (logsColl s) = [1])"
  by code_simp

theorem final_snapshot_after_workers_exit_and_close_witness:
  "(case run orderlyShutdown (initial [exampleSample ''0'']) of
      None \<Rightarrow> False
    | Some s \<Rightarrow> pc s = AfterFinal \<and> collector s = Closed \<and> resultsClosed s
        \<and> list_all (\<lambda>w. w = Exited) (workers s)
        \<and> map IsCorrect (resultsColl s) = [True] \<and> map TotalQuestions (logsColl s) = [1])"
proof -
  obtain s where s: "run orderlyShutdown (initial [exampleSample ''0'']) = Some s"
    "pc s = AfterFinal"
    using orderly_run by (cases "run orderlyShutdown (initial [exampleSample ''0''])") auto
  from final_snapshot_after_workers_exit_and_close[OF s(1,2)] orderly_run show ?thesis
    by simp
qed

text \<open>
  Claim C7 as stated fails: in the run \<open>shutdownRace\<close> the final snapshot is written
  (and reports one processed question) while the collector is still draining, the one
  result is still in the output queue and nothing has been flushed to the results
  collection.
\<close>

theorem final_snapshot_before_collector_closed_counterexample:
  "(case run shutdownRace (initial [exampleSample ''0'']) of
      None \<Rightarrow> False
    | Some s \<Rightarrow> pc s = AfterFinal \<and> collector s = Draining
        \<and> map IsCorrect (resultsChan s) = [True] \<and> resultsColl s = []
        \<and> map TotalQuestions (logsColl s) = [1])"
  by code_simp

end
